theory Spec2Isabelle
  imports Main "HOL-Library.Sublist"
begin

section \<open>The crawl handler of \<open>src/api/server.js\<close>\<close>

text \<open>
  The repository is one WebSocket message handler (\<open>ws.on('message', ...)\<close>, lines 62-180
  of \<open>src/api/server.js\<close>; the two unnamed files are earlier and later revisions of the same
  handler). It parses the message, launches a headless browser, runs a breadth-first crawl
  from the seed URL and sends progress and results back on the socket.

  The handler is embedded as pure functions. The browser (puppeteer), the HTML parser
  (cheerio), the URL class and the socket are libraries outside the repository: what they
  answer is given by an environment record, and every call the handler makes to them is
  written to a log together with the answer it got.

  What the embedding leaves out: the text of a message before \<open>JSON.parse\<close> and of a
  page before the parser (the handler is given the parsed value and the parsed document);
  \<open>console.log\<close>; the connection set-up, the heartbeat and the health route around the
  handler; and the interleaving of several runs of the handler on one socket (one run is
  modelled, with an environment that may answer differently at each call).
\<close>

subsection \<open>JavaScript values and strings\<close>

text \<open>
  The values \<open>JSON.parse\<close> can return, and \<open>undefined\<close>. Numbers are restricted to
  integers; an object is its key/value pairs in textual order. Strings are lists of 8-bit
  code units.
\<close>

datatype jsval =
    JUndefined
  | JNull
  | JBool bool
  | JNum int
  | JStr string
  | JArr "jsval list"
  | JObj "(string \<times> jsval) list"

text \<open>\<open>!v\<close>: the falsy values among those of \<open>jsval\<close>.\<close>

fun falsy :: "jsval \<Rightarrow> bool" where
  "falsy JUndefined = True"
| "falsy JNull = True"
| "falsy (JBool b) = (\<not> b)"
| "falsy (JNum n) = (n = 0)"
| "falsy (JStr s) = (s = [])"
| "falsy (JArr xs) = False"
| "falsy (JObj kvs) = False"

text \<open>
  The white space that \<open>String.prototype.trim\<close> removes, as far as it lies in the 8-bit
  range: TAB, LF, VT, FF, CR, SPACE and NBSP.
\<close>

definition js_whitespace :: "char \<Rightarrow> bool" where
  "js_whitespace c = (of_char c \<in> {9, 10, 11, 12, 13, 32, 160 :: nat})"

definition trim :: "string \<Rightarrow> string" where
  "trim s = rev (dropWhile js_whitespace (rev (dropWhile js_whitespace s)))"

subsection \<open>The rendered document\<close>

text \<open>
  What \<open>cheerio.load(content)\<close> holds: a forest of nodes. An element has its tag name (in
  lower case, as the parser stores it), its attributes and its children.
\<close>

datatype node =
    Text string
  | Comment string
  | Element string "(string \<times> string) list" "node list"

text \<open>All elements below (and including) a node, in document order.\<close>

fun elements :: "node \<Rightarrow> node list" where
  "elements (Text s) = []"
| "elements (Comment s) = []"
| "elements (Element t as cs) = Element t as cs # concat (map elements cs)"

text \<open>\<open>$(element).text()\<close>: the text nodes below the element, concatenated.\<close>

fun text_of :: "node \<Rightarrow> string" where
  "text_of (Text s) = s"
| "text_of (Comment s) = []"
| "text_of (Element t as cs) = concat (map text_of cs)"

text \<open>\<open>$(element).prop('tagName').toLowerCase()\<close>.\<close>

fun tagName :: "node \<Rightarrow> string" where
  "tagName (Element t as cs) = t"
| "tagName (Text s) = []"
| "tagName (Comment s) = []"

text \<open>\<open>$(element).attr(name)\<close>; \<open>None\<close> is \<open>undefined\<close>.\<close>

fun attr :: "node \<Rightarrow> string \<Rightarrow> string option" where
  "attr (Element t as cs) name = map_of as name"
| "attr (Text s) name = None"
| "attr (Comment s) name = None"

text \<open>The two selectors of the handler, each giving its matches in document order.\<close>

definition extraction_tags :: "string list" where
  "extraction_tags =
     [''h1'', ''h2'', ''h3'', ''h4'', ''h5'', ''h6'', ''p'', ''span'', ''li'', ''pre'', ''code'']"

definition select_content :: "node list \<Rightarrow> node list" where
  "select_content doc =
     filter (\<lambda>el. tagName el \<in> set extraction_tags) (concat (map elements doc))"

definition select_anchors :: "node list \<Rightarrow> node list" where
  "select_anchors doc =
     filter (\<lambda>el. tagName el = ''a'' \<and> attr el ''href'' \<noteq> None) (concat (map elements doc))"

subsection \<open>The extractor (lines 118-139)\<close>

text \<open>A content item \<open>{tag, text}\<close> is a pair; a section \<open>{title, content}\<close> is a record
  (\<open>section\<close> is a keyword, hence the name).\<close>

record page_section =
  title :: string
  content :: "(string \<times> string) list"

text \<open>
  The callback of \<open>.each\<close>, on the pair \<open>(pageData, currentSection)\<close>: an element with
  empty trimmed text is skipped; a heading flushes the current section when it has content
  and starts a new one; any other element is appended to the current section.
\<close>

definition each_element :: "page_section list \<times> page_section \<Rightarrow> node \<Rightarrow> page_section list \<times> page_section" where
  "each_element acc element =
     (let pageData = fst acc; currentSection = snd acc;
          tag = tagName element;
          text = trim (text_of element)
      in if text \<noteq> [] then
           if prefix ''h'' tag then
             (if content currentSection \<noteq> [] then pageData @ [currentSection] else pageData,
              \<lparr>title = text, content = []\<rparr>)
           else (pageData, currentSection\<lparr>content := content currentSection @ [(tag, text)]\<rparr>)
         else (pageData, currentSection))"

definition walk :: "node list \<Rightarrow> page_section list \<times> page_section" where
  "walk doc = foldl each_element ([], \<lparr>title = [], content = []\<rparr>) (select_content doc)"

text \<open>After the walk the current section is flushed when it has content.\<close>

definition extractor :: "node list \<Rightarrow> page_section list" where
  "extractor doc =
     (let pageData = fst (walk doc); currentSection = snd (walk doc)
      in if content currentSection \<noteq> [] then pageData @ [currentSection] else pageData)"

subsection \<open>The libraries around the handler\<close>

text \<open>A page record \<open>{url, data}\<close> and the three kinds of message the handler sends.\<close>

record page_record =
  url :: jsval
  data :: "page_section list"

datatype outmsg =
    Error string
  | Visiting jsval
  | ScrapedData "page_record list"

text \<open>
  What one navigation gives: \<open>page.goto\<close> throws; \<open>page.goto\<close> returns and
  \<open>page.content()\<close> (or the parser) throws; or the rendered document.
\<close>

datatype rendering =
    NavigationFailed
  | ContentFailed
  | Rendered "node list"

text \<open>
  The log of a run: the calls to the browser and the socket with their answers (\<open>True\<close>:
  the call returned, \<open>False\<close>: it threw), and the pops of the queue.
\<close>

datatype action =
    Launch bool
  | NewPage bool
  | Shift jsval
  | Send outmsg bool
  | Goto jsval rendering
  | Close bool

text \<open>
  The environment. \<open>origin v\<close> is \<open>new URL(v).origin\<close> and \<open>href link base\<close> is
  \<open>new URL(link, base).href\<close>, \<open>None\<close> when the constructor throws. The socket, the
  renderer and \<open>browser.close()\<close> may answer differently each time they are called: they
  take the time of the call, which is the length of the log so far.
\<close>

record env =
  launch :: bool
  newPage :: bool
  origin :: "jsval \<Rightarrow> string option"
  href :: "string \<Rightarrow> string \<Rightarrow> string option"
  send :: "nat \<Rightarrow> bool"
  goto :: "nat \<Rightarrow> jsval \<Rightarrow> rendering"
  close :: "nat \<Rightarrow> bool"

subsection \<open>The traversal loop (lines 87-158)\<close>

definition MAX_PAGES :: nat where
  "MAX_PAGES = 1000"

text \<open>
  The variables of the loop, and the log. \<open>visitedUrls\<close> is a JavaScript \<open>Set\<close>: a list
  without duplicates in insertion order, \<open>size\<close> its length.
\<close>

record state =
  urlQueue :: "jsval list"
  visitedUrls :: "jsval list"
  scrapedData :: "page_record list"
  trace :: "action list"

definition set_add :: "jsval list \<Rightarrow> jsval \<Rightarrow> jsval list" where
  "set_add xs x = (if x \<in> set xs then xs else xs @ [x])"

text \<open>
  The callback of \<open>$('a[href]').each\<close> (lines 143-155), on the queue: the raw href is
  tested against the visited set, resolved against \<open>baseUrl\<close>, and pushed when the
  resolved string starts with \<open>baseUrl\<close>.
\<close>

definition each_anchor :: "env \<Rightarrow> string \<Rightarrow> jsval list \<Rightarrow> jsval list \<Rightarrow> node \<Rightarrow> jsval list" where
  "each_anchor e baseUrl visited queue element =
     (case attr element ''href'' of
        None \<Rightarrow> queue
      | Some link \<Rightarrow>
          if link \<noteq> [] \<and> JStr link \<notin> set visited then
            (case href e link baseUrl of
               None \<Rightarrow> queue
             | Some absoluteLink \<Rightarrow>
                 if prefix baseUrl absoluteLink then queue @ [JStr absoluteLink] else queue)
          else queue)"

text \<open>
  One run of the loop body (lines 95-157). \<open>shift()\<close> on an empty array gives
  \<open>undefined\<close> and leaves the array empty.
\<close>

datatype flow = Continue | Break | Throw

definition iteration :: "env \<Rightarrow> string \<Rightarrow> state \<Rightarrow> flow \<times> state" where
  "iteration e baseUrl s =
     (let currentUrl = (case urlQueue s of [] \<Rightarrow> JUndefined | u # rest \<Rightarrow> u);
          s1 = s\<lparr>urlQueue := tl (urlQueue s), trace := trace s @ [Shift currentUrl]\<rparr>
      in if currentUrl \<in> set (visitedUrls s1) then (Continue, s1)
         else
           let sent = send e (length (trace s1));
               s2 = s1\<lparr>trace := trace s1 @ [Send (Visiting currentUrl) sent]\<rparr>
           in if \<not> sent then (Break, s2)
              else
                let r = goto e (length (trace s2)) currentUrl;
                    s3 = s2\<lparr>trace := trace s2 @ [Goto currentUrl r]\<rparr>
                in case r of
                     NavigationFailed \<Rightarrow> (Continue, s3)
                   | ContentFailed \<Rightarrow> (Throw, s3)
                   | Rendered doc \<Rightarrow>
                       (Continue,
                        s3\<lparr>scrapedData :=
                             scrapedData s3 @ [\<lparr>url = currentUrl, data = extractor doc\<rparr>],
                           urlQueue :=
                             foldl (each_anchor e baseUrl (visitedUrls s3)) (urlQueue s3)
                               (select_anchors doc),
                           visitedUrls := set_add (visitedUrls s3) currentUrl\<rparr>))"

text \<open>
  The \<open>while\<close> loop. The result is the state at the exit, with \<open>True\<close> when an exception
  left the loop and \<open>False\<close> when the condition failed or \<open>break\<close> was reached.
\<close>

definition loop_condition :: "state \<Rightarrow> bool" where
  "loop_condition s = (urlQueue s \<noteq> [] \<and> length (visitedUrls s) < MAX_PAGES)"

function loop :: "env \<Rightarrow> string \<Rightarrow> state \<Rightarrow> bool \<times> state" where
  "loop e baseUrl s =
     (if loop_condition s then
        (case iteration e baseUrl s of
           (Continue, s') \<Rightarrow> loop e baseUrl s'
         | (Break, s') \<Rightarrow> (False, s')
         | (Throw, s') \<Rightarrow> (True, s'))
      else (False, s))"
  by pat_completeness auto
termination
proof (relation "measures [\<lambda>(e, b, s). MAX_PAGES - length (visitedUrls s),
                           \<lambda>(e, b, s). length (urlQueue s)]")
  show "wf (measures [\<lambda>(e, b, s). MAX_PAGES - length (visitedUrls s),
                      \<lambda>(e :: env, b :: string, s). length (urlQueue s)])"
    by simp
next
  fix e :: env and baseUrl :: string and s x :: state and f :: flow
  assume "loop_condition s"
  then have guard: "urlQueue s \<noteq> [] \<and> length (visitedUrls s) < MAX_PAGES"
    by (simp add: loop_condition_def)
  assume step: "(f, x) = iteration e baseUrl s" and f: "f = Continue"
  from guard obtain u rest where q: "urlQueue s = u # rest"
    by (cases "urlQueue s") auto
  from step f have "iteration e baseUrl s = (Continue, x)"
    by simp
  then have "(length (visitedUrls x) = length (visitedUrls s) \<and> length (urlQueue x) < length (urlQueue s))
      \<or> length (visitedUrls x) = Suc (length (visitedUrls s))"
    using q
    by (auto simp: iteration_def Let_def set_add_def split: if_splits rendering.splits)
  with guard show "((e, baseUrl, x), (e, baseUrl, s))
      \<in> measures [\<lambda>(e, b, s). MAX_PAGES - length (visitedUrls s), \<lambda>(e, b, s). length (urlQueue s)]"
    by auto
qed

declare loop.simps [simp del]

text \<open>
  The loop cut off after \<open>n\<close> runs of its body, for statements about every iteration:
  \<open>(Continue, s)\<close> is the loop at its head in state \<open>s\<close> after \<open>n\<close> runs, \<open>(Break, s)\<close> the
  loop left (by its condition or by \<open>break\<close>) and \<open>(Throw, s)\<close> the loop left by an
  exception, both within \<open>n\<close> runs.
\<close>

fun iterations :: "nat \<Rightarrow> env \<Rightarrow> string \<Rightarrow> state \<Rightarrow> flow \<times> state" where
  "iterations 0 e baseUrl s = (Continue, s)"
| "iterations (Suc n) e baseUrl s =
     (if loop_condition s then
        (case iteration e baseUrl s of
           (Continue, s') \<Rightarrow> iterations n e baseUrl s'
         | (Break, s') \<Rightarrow> (Break, s')
         | (Throw, s') \<Rightarrow> (Throw, s'))
      else (Break, s))"

subsection \<open>The message handler (lines 62-180)\<close>

text \<open>\<open>JSON.parse(message)\<close>: it throws, or gives a value.\<close>

datatype parsed = SyntaxError | Parsed jsval

text \<open>
  \<open>const { url } = msgData\<close>: a \<open>TypeError\<close> (\<open>None\<close>) on \<open>null\<close> and \<open>undefined\<close>;
  otherwise the property \<open>url\<close>, which only an object can have (the last of several
  equal keys counts), and \<open>undefined\<close> when there is none.
\<close>

fun destructure_url :: "jsval \<Rightarrow> jsval option" where
  "destructure_url JUndefined = None"
| "destructure_url JNull = None"
| "destructure_url (JObj kvs) =
     Some (case map_of (rev kvs) ''url'' of None \<Rightarrow> JUndefined | Some v \<Rightarrow> v)"
| "destructure_url v = Some JUndefined"

text \<open>
  What a run of the handler did: its log, and whether an exception escaped the handler
  (the promise of the \<open>async\<close> function is rejected).
\<close>

record result =
  actions :: "action list"
  rejected :: bool

text \<open>
  The \<open>catch\<close> block (lines 169-179), entered with the log so far; \<open>browser\<close> tells
  whether the variable is set. The send is inside its own \<open>try\<close>, the close is not.
\<close>

definition catch_block :: "env \<Rightarrow> bool \<Rightarrow> action list \<Rightarrow> result" where
  "catch_block e browser l =
     (let l1 = l @ [Send (Error ''An unexpected error occurred.'') (send e (length l))]
      in if browser then
           let closed = close e (length l1)
           in \<lparr>actions = l1 @ [Close closed], rejected = \<not> closed\<rparr>
         else \<lparr>actions = l1, rejected = False\<rparr>)"

text \<open>The crawl proper: the initial variables (lines 87-89) and the loop.\<close>

definition initial :: "jsval \<Rightarrow> state" where
  "initial seed =
     \<lparr>urlQueue = [seed], visitedUrls = [], scrapedData = [],
      trace = [Launch True, NewPage True]\<rparr>"

definition crawl :: "env \<Rightarrow> string \<Rightarrow> jsval \<Rightarrow> bool \<times> state" where
  "crawl e baseUrl seed = loop e baseUrl (initial seed)"

text \<open>The \<open>try\<close> block (lines 82-168) with its \<open>catch\<close>.\<close>

definition session :: "env \<Rightarrow> jsval \<Rightarrow> result" where
  "session e seed =
     (if \<not> launch e then catch_block e False [Launch False]
      else if \<not> newPage e then catch_block e True [Launch True, NewPage False]
      else
        case origin e seed of
          None \<Rightarrow> catch_block e True [Launch True, NewPage True]
        | Some baseUrl \<Rightarrow>
            (case crawl e baseUrl seed of
               (True, s) \<Rightarrow> catch_block e True (trace s)
             | (False, s) \<Rightarrow>
                 let closed = close e (length (trace s));
                     l1 = trace s @ [Close closed]
                 in if \<not> closed then catch_block e True l1
                    else \<lparr>actions = l1 @ [Send (ScrapedData (scrapedData s)) (send e (length l1))],
                          rejected = False\<rparr>))"

text \<open>
  The handler. The two early error messages (lines 68 and 77) are sent outside any
  \<open>try\<close>, and so is the destructuring of line 72.
\<close>

definition handler :: "env \<Rightarrow> parsed \<Rightarrow> result" where
  "handler e message =
     (case message of
        SyntaxError \<Rightarrow>
          let sent = send e 0
          in \<lparr>actions = [Send (Error ''Invalid message format'') sent], rejected = \<not> sent\<rparr>
      | Parsed msgData \<Rightarrow>
          (case destructure_url msgData of
             None \<Rightarrow> \<lparr>actions = [], rejected = True\<rparr>
           | Some seed \<Rightarrow>
               if falsy seed then
                 let sent = send e 0
                 in \<lparr>actions = [Send (Error ''URL is required'') sent], rejected = \<not> sent\<rparr>
               else session e seed))"

text \<open>The messages that reached the client, in order.\<close>

fun sent_message :: "action \<Rightarrow> outmsg option" where
  "sent_message (Send m True) = Some m"
| "sent_message a = None"

definition stream :: "action list \<Rightarrow> outmsg list" where
  "stream l = List.map_filter sent_message l"

subsection \<open>Sample inputs\<close>

text \<open>The document \<open><h1>A</h1><p>x</p><h2>B</h2>\<close>, as the parser completes it.\<close>

definition doc_A_x_B :: "node list" where
  "doc_A_x_B =
     [Element ''html'' []
        [Element ''head'' [] [],
         Element ''body'' []
           [Element ''h1'' [] [Text ''A''],
            Element ''p'' [] [Text ''x''],
            Element ''h2'' [] [Text ''B'']]]]"

text \<open>
  A small site for running the handler: the seed page \<open>https://a.example\<close> has a heading,
  a paragraph and one anchor for each of the given hrefs; \<open>/u3\<close> is a page whose only
  paragraph is blank; every other navigation fails. Relative references resolve against the
  base by concatenation, absolute ones are kept.
\<close>

definition seed_url :: jsval where
  "seed_url = JStr ''https://a.example''"

definition seed_page :: "string list \<Rightarrow> node list" where
  "seed_page links =
     [Element ''html'' []
        [Element ''head'' [] [Element ''title'' [] [Text ''Site'']],
         Element ''body'' []
           (Element ''h1'' [] [Text ''Home''] #
            Element ''p'' [] [Text '' welcome ''] #
            map (\<lambda>l. Element ''a'' [(''href'', l)] [Text ''go'']) links)]]"

definition blank_page :: "node list" where
  "blank_page =
     [Element ''html'' []
        [Element ''head'' [] [],
         Element ''body'' [] [Element ''div'' [] [Element ''p'' [] [Text ''  '']]]]]"

definition site_origin :: "jsval \<Rightarrow> string option" where
  "site_origin v =
     (case v of
        JStr s \<Rightarrow> if prefix ''https://a.example'' s then Some ''https://a.example'' else None
      | _ \<Rightarrow> None)"

definition site_href :: "string \<Rightarrow> string \<Rightarrow> string option" where
  "site_href link base =
     (if prefix ''https://'' link then Some link
      else if prefix ''/'' link then Some (base @ link)
      else None)"

definition site_goto :: "string list \<Rightarrow> jsval \<Rightarrow> rendering" where
  "site_goto links u =
     (if u = JStr ''https://a.example'' then Rendered (seed_page links)
      else if u = JStr ''https://a.example/u3'' then Rendered blank_page
      else NavigationFailed)"

definition site :: "string list \<Rightarrow> env" where
  "site links =
     \<lparr>launch = True, newPage = True, origin = site_origin, href = site_href,
      send = (\<lambda>t. True), goto = (\<lambda>t. site_goto links), close = (\<lambda>t. True)\<rparr>"

definition request :: parsed where
  "request = Parsed (JObj [(''url'', seed_url)])"

text \<open>Two more documents: \<open><h1>A</h1><h2> </h2><h3>C</h3>\<close> and \<open><p>intro</p><h1>A</h1><p>x</p>\<close>.\<close>

definition doc_headings_only :: "node list" where
  "doc_headings_only =
     [Element ''html'' []
        [Element ''head'' [] [],
         Element ''body'' []
           [Element ''h1'' [] [Text ''A''],
            Element ''h2'' [] [Text '' ''],
            Element ''h3'' [] [Text ''C'']]]]"

definition doc_leading_text :: "node list" where
  "doc_leading_text =
     [Element ''html'' []
        [Element ''head'' [] [],
         Element ''body'' []
           [Element ''p'' [] [Text ''intro''],
            Element ''h1'' [] [Text ''A''],
            Element ''p'' [] [Text ''x'']]]]"

subsection \<open>Notions used in the statements\<close>

text \<open>The flush of lines 127-129 and 137-139, on the pair \<open>(pageData, currentSection)\<close>.\<close>

definition flush :: "page_section list \<times> page_section \<Rightarrow> page_section list" where
  "flush acc = (if content (snd acc) \<noteq> [] then fst acc @ [snd acc] else fst acc)"

text \<open>The heading tags among the extraction tags, and the elements the walk does not skip.\<close>

definition heading_tags :: "string list" where
  "heading_tags = [''h1'', ''h2'', ''h3'', ''h4'', ''h5'', ''h6'']"

definition has_text :: "node \<Rightarrow> bool" where
  "has_text el = (trim (text_of el) \<noteq> [])"

text \<open>What a log says: the URLs popped, the URLs announced by a \<open>visiting\<close> message (sent or
  not), and the navigations with their outcomes, each in order.\<close>

fun popped :: "action \<Rightarrow> jsval option" where
  "popped (Shift u) = Some u"
| "popped a = None"

fun announced :: "action \<Rightarrow> jsval option" where
  "announced (Send (Visiting u) ok) = Some u"
| "announced a = None"

fun navigated :: "action \<Rightarrow> (jsval \<times> rendering) option" where
  "navigated (Goto u r) = Some (u, r)"
| "navigated a = None"

definition pops :: "action list \<Rightarrow> jsval list" where
  "pops l = List.map_filter popped l"

definition announcements :: "action list \<Rightarrow> jsval list" where
  "announcements l = List.map_filter announced l"

definition navigations :: "action list \<Rightarrow> (jsval \<times> rendering) list" where
  "navigations l = List.map_filter navigated l"

text \<open>A URL whose navigation once returned is not navigated again.\<close>

fun no_revisit :: "(jsval \<times> rendering) list \<Rightarrow> bool" where
  "no_revisit [] = True"
| "no_revisit ((u, r) # rest) = ((r = NavigationFailed \<or> u \<notin> fst ` set rest) \<and> no_revisit rest)"

text \<open>Every navigation comes right after the pop and the sent announcement of its URL.\<close>

definition announced_first :: "action list \<Rightarrow> bool" where
  "announced_first l =
     (\<forall>pre u r post. l = pre @ Goto u r # post \<longrightarrow>
        (\<exists>pre'. pre = pre' @ [Shift u, Send (Visiting u) True]))"

text \<open>The actions the loop and the lines before it can log.\<close>

fun loop_action :: "action \<Rightarrow> bool" where
  "loop_action (Launch ok) = ok"
| "loop_action (NewPage ok) = ok"
| "loop_action (Shift u) = True"
| "loop_action (Send (Visiting u) ok) = True"
| "loop_action (Send m ok) = False"
| "loop_action (Goto u r) = True"
| "loop_action (Close ok) = False"

text \<open>
  The invariant of the loop: the ledger is bounded and without duplicates, the results are
  the records of the ledger's URLs in order, the results are exactly the renderings of the
  log, and the log is well ordered. \<open>settled\<close> holds until an exception: every URL whose
  navigation returned is in the ledger.
\<close>

definition consistent :: "state \<Rightarrow> bool" where
  "consistent s \<longleftrightarrow>
     length (visitedUrls s) \<le> MAX_PAGES \<and> distinct (visitedUrls s)
     \<and> map url (scrapedData s) = visitedUrls s
     \<and> (\<forall>u doc. Goto u (Rendered doc) \<in> set (trace s) \<longrightarrow>
           \<lparr>url = u, data = extractor doc\<rparr> \<in> set (scrapedData s))
     \<and> (\<forall>p \<in> set (scrapedData s). \<exists>doc.
           Goto (url p) (Rendered doc) \<in> set (trace s) \<and> data p = extractor doc)
     \<and> no_revisit (navigations (trace s))
     \<and> announced_first (trace s)
     \<and> subseq (announcements (trace s)) (pops (trace s))
     \<and> (\<forall>a \<in> set (trace s). loop_action a)"

definition settled :: "state \<Rightarrow> bool" where
  "settled s \<longleftrightarrow>
     (\<forall>u r. Goto u r \<in> set (trace s) \<longrightarrow> r = NavigationFailed \<or> u \<in> set (visitedUrls s))"

text \<open>
  What one anchor adds to the queue, stated from the rules of the link resolver: nothing
  when the href is missing, empty or, as raw text, in the visited set; nothing when it does
  not resolve; the resolved URL when it starts with the base, and nothing otherwise.
\<close>

definition candidate :: "env \<Rightarrow> string \<Rightarrow> jsval list \<Rightarrow> node \<Rightarrow> jsval option" where
  "candidate e baseUrl visited element =
     (case attr element ''href'' of
        None \<Rightarrow> None
      | Some link \<Rightarrow>
          if link = [] \<or> JStr link \<in> set visited then None
          else
            (case href e link baseUrl of
               None \<Rightarrow> None
             | Some absoluteLink \<Rightarrow>
                 if prefix baseUrl absoluteLink then Some (JStr absoluteLink) else None))"

text \<open>The URLs whose navigation returned (\<open>page.goto\<close> did not throw), in order.\<close>

definition returned :: "action list \<Rightarrow> jsval list" where
  "returned l = map fst (filter (\<lambda>p. snd p \<noteq> NavigationFailed) (navigations l))"

text \<open>
  A URL that the link resolver can have put into the queue of a session with the given
  base: the resolution of some href against the base, starting with the base. \<open>scoped\<close>
  says that the queue and the URLs popped so far hold nothing but the seed and such URLs.
\<close>

definition resolved_in_scope :: "env \<Rightarrow> string \<Rightarrow> jsval \<Rightarrow> bool" where
  "resolved_in_scope e baseUrl u \<longleftrightarrow>
     (\<exists>link a. u = JStr a \<and> href e link baseUrl = Some a \<and> prefix baseUrl a)"

definition scoped :: "env \<Rightarrow> string \<Rightarrow> jsval \<Rightarrow> state \<Rightarrow> bool" where
  "scoped e b seed s \<longleftrightarrow>
     (\<forall>u \<in> set (urlQueue s) \<union> set (pops (trace s)). u = seed \<or> resolved_in_scope e b u)"

section \<open>Properties\<close>

subsection \<open>The extractor\<close>

lemma extractor_flush:
  "extractor doc =
     flush (foldl each_element ([], \<lparr>title = [], content = []\<rparr>) (select_content doc))"
  by (simp add: extractor_def walk_def flush_def Let_def)

lemma each_element_blank: "\<not> has_text el \<Longrightarrow> each_element acc el = acc"
  by (simp add: each_element_def has_text_def Let_def)

lemma each_element_heading:
  "has_text el \<Longrightarrow> prefix ''h'' (tagName el) \<Longrightarrow>
   each_element (pd, cur) el = (flush (pd, cur), \<lparr>title = trim (text_of el), content = []\<rparr>)"
  by (simp add: each_element_def has_text_def Let_def flush_def)

lemma each_element_item:
  "has_text el \<Longrightarrow> \<not> prefix ''h'' (tagName el) \<Longrightarrow>
   each_element (pd, cur) el =
     (pd, cur\<lparr>content := content cur @ [(tagName el, trim (text_of el))]\<rparr>)"
  by (simp add: each_element_def has_text_def Let_def)

lemma each_element_cases:
  obtains (blank) "\<not> has_text el" "each_element (pd, cur) el = (pd, cur)"
  | (heading) "has_text el" "prefix ''h'' (tagName el)"
      "each_element (pd, cur) el = (flush (pd, cur), \<lparr>title = trim (text_of el), content = []\<rparr>)"
  | (item) "has_text el" "\<not> prefix ''h'' (tagName el)"
      "each_element (pd, cur) el =
         (pd, cur\<lparr>content := content cur @ [(tagName el, trim (text_of el))]\<rparr>)"
  using each_element_blank each_element_heading each_element_item by blast

text \<open>Among the selected elements the test \<open>tag.startsWith('h')\<close> finds the headings.\<close>

lemma startsWith_h_iff_heading:
  "el \<in> set (select_content doc) \<Longrightarrow> prefix ''h'' (tagName el) \<longleftrightarrow> tagName el \<in> set heading_tags"
  by (auto simp: select_content_def extraction_tags_def heading_tags_def)

lemma walk_nonempty_sections:
  "\<forall>sec \<in> set pd. content sec \<noteq> [] \<Longrightarrow>
   \<forall>sec \<in> set (flush (foldl each_element (pd, cur) els)). content sec \<noteq> []"
proof (induction els arbitrary: pd cur)
  case Nil
  then show ?case by (simp add: flush_def)
next
  case (Cons el els)
  show ?case
  proof (cases el pd cur rule: each_element_cases)
    case blank
    with Cons show ?thesis by simp
  next
    case heading
    have "\<forall>sec \<in> set (flush (pd, cur)). content sec \<noteq> []"
      using Cons.prems by (simp add: flush_def)
    with Cons.IH heading show ?thesis by simp
  next
    case item
    with Cons show ?thesis by simp
  qed
qed

lemma walk_headings_only:
  "\<forall>el \<in> set els. has_text el \<longrightarrow> prefix ''h'' (tagName el) \<Longrightarrow> content cur = [] \<Longrightarrow>
   foldl each_element (pd, cur) els =
     (pd, if filter has_text els = [] then cur
          else \<lparr>title = trim (text_of (last (filter has_text els))), content = []\<rparr>)"
proof (induction els arbitrary: cur)
  case Nil
  then show ?case by simp
next
  case (Cons el els)
  show ?case
  proof (cases "has_text el")
    case False
    with Cons show ?thesis by (simp add: each_element_blank)
  next
    case True
    with Cons.prems have h: "prefix ''h'' (tagName el)" by simp
    have "each_element (pd, cur) el = (pd, \<lparr>title = trim (text_of el), content = []\<rparr>)"
      using True h Cons.prems(2) by (simp add: each_element_heading flush_def)
    with Cons.IH[of "\<lparr>title = trim (text_of el), content = []\<rparr>"] Cons.prems(1) True
    show ?thesis by simp
  qed
qed

lemma flush_grows: "\<exists>more. flush (foldl each_element (pd, cur) els) = pd @ more"
proof (induction els arbitrary: pd cur)
  case Nil
  then show ?case by (simp add: flush_def)
next
  case (Cons el els)
  show ?case
  proof (cases el pd cur rule: each_element_cases)
    case blank
    with Cons show ?thesis by simp
  next
    case heading
    from Cons[of "flush (pd, cur)" "\<lparr>title = trim (text_of el), content = []\<rparr>"]
    obtain more where
      "flush (foldl each_element (flush (pd, cur), \<lparr>title = trim (text_of el), content = []\<rparr>) els)
         = flush (pd, cur) @ more"
      by blast
    with heading show ?thesis by (auto simp: flush_def)
  next
    case item
    with Cons show ?thesis by simp
  qed
qed

lemma walk_keeps_open_section:
  "content cur \<noteq> [] \<Longrightarrow>
   \<exists>sec more. flush (foldl each_element (pd, cur) els) = pd @ sec # more \<and> title sec = title cur"
proof (induction els arbitrary: cur)
  case Nil
  then show ?case by (simp add: flush_def)
next
  case (Cons el els)
  show ?case
  proof (cases el pd cur rule: each_element_cases)
    case blank
    with Cons show ?thesis by simp
  next
    case heading
    from flush_grows[of "pd @ [cur]" "\<lparr>title = trim (text_of el), content = []\<rparr>" els]
    obtain more where
      "flush (foldl each_element (pd @ [cur], \<lparr>title = trim (text_of el), content = []\<rparr>) els)
         = (pd @ [cur]) @ more"
      by blast
    with heading Cons.prems show ?thesis by (simp add: flush_def)
  next
    case item
    with Cons.IH[of "cur\<lparr>content := content cur @ [(tagName el, trim (text_of el))]\<rparr>"]
    show ?thesis by simp
  qed
qed

lemma walk_leading_content:
  assumes "\<forall>b \<in> set pre. \<not> has_text b"
    and "has_text el" and "\<not> prefix ''h'' (tagName el)"
  shows "\<exists>sec more.
      flush (foldl each_element ([], \<lparr>title = [], content = []\<rparr>) (pre @ el # post)) = sec # more
      \<and> title sec = []"
proof -
  have pre: "foldl each_element acc pre = acc" for acc
    using assms(1) by (induction pre arbitrary: acc) (simp_all add: each_element_blank)
  have "foldl each_element ([], \<lparr>title = [], content = []\<rparr>) (pre @ el # post)
      = foldl each_element ([], \<lparr>title = [], content = [(tagName el, trim (text_of el))]\<rparr>) post"
    using assms(2,3) by (simp add: pre each_element_item)
  moreover have "\<exists>sec more.
      flush (foldl each_element ([], \<lparr>title = [], content = [(tagName el, trim (text_of el))]\<rparr>) post)
        = [] @ sec # more
      \<and> title sec = title \<lparr>title = [], content = [(tagName el, trim (text_of el))]\<rparr>"
    by (rule walk_keeps_open_section) simp
  ultimately show ?thesis by simp
qed

lemmas extractor_eval =
  extractor_def walk_def select_content_def extraction_tags_def each_element_def trim_def
  js_whitespace_def

text \<open>
  Claim C4, as the spec states it: the document \<open><h1>A</h1><p>x</p><h2>B</h2>\<close> yields exactly
  two sections, the first being \<open>{title: "A", content: [("p", "x")]}\<close>. The code yields one
  section, not two: the statement fails on the number of sections.
\<close>

theorem extractor_A_x_B_not_two_sections:
  "\<not> (length (extractor doc_A_x_B) = 2
      \<and> hd (extractor doc_A_x_B) = \<lparr>title = ''A'', content = [(''p'', ''x'')]\<rparr>)"
  by (simp add: extractor_eval doc_A_x_B_def)

text \<open>
  Claim C4, amended: the document \<open><h1>A</h1><p>x</p><h2>B</h2>\<close> yields exactly one section,
  \<open>{title: "A", content: [("p", "x")]}\<close>; the heading \<open>B\<close> is not emitted as a section,
  since no content-bearing element follows it before the document ends.
\<close>

theorem extractor_A_x_B:
  "extractor doc_A_x_B = [\<lparr>title = ''A'', content = [(''p'', ''x'')]\<rparr>]
   \<and> ''B'' \<notin> title ` set (extractor doc_A_x_B)"
  by (simp add: extractor_eval doc_A_x_B_def)

text \<open>
  Claim C5: the extractor never flushes a section whose content is empty. Every section of
  the output has content. A page whose elements with text are all headings yields no
  section, and the section in progress at the end carries the title of the last such heading
  (the empty title when there is none) and no content. A page whose first element with text
  is not a heading yields a first section with the empty title.
\<close>

theorem extractor_never_flushes_empty:
  "(\<forall>sec \<in> set (extractor doc). content sec \<noteq> [])
   \<and> ((\<forall>el \<in> set (select_content doc). has_text el \<longrightarrow> tagName el \<in> set heading_tags) \<longrightarrow>
        extractor doc = []
        \<and> snd (walk doc) =
            (if filter has_text (select_content doc) = [] then \<lparr>title = [], content = []\<rparr>
             else \<lparr>title = trim (text_of (last (filter has_text (select_content doc)))),
                   content = []\<rparr>))
   \<and> (\<forall>pre el post.
        select_content doc = pre @ el # post \<and> (\<forall>b \<in> set pre. \<not> has_text b)
          \<and> has_text el \<and> tagName el \<notin> set heading_tags \<longrightarrow>
        extractor doc \<noteq> [] \<and> title (hd (extractor doc)) = [])"
proof (intro conjI impI allI)
  show "\<forall>sec \<in> set (extractor doc). content sec \<noteq> []"
    unfolding extractor_flush by (rule walk_nonempty_sections) simp
next
  assume "\<forall>el \<in> set (select_content doc). has_text el \<longrightarrow> tagName el \<in> set heading_tags"
  then have hs: "\<forall>el \<in> set (select_content doc). has_text el \<longrightarrow> prefix ''h'' (tagName el)"
    using startsWith_h_iff_heading by blast
  have w: "walk doc =
      ([], if filter has_text (select_content doc) = [] then \<lparr>title = [], content = []\<rparr>
           else \<lparr>title = trim (text_of (last (filter has_text (select_content doc)))),
                 content = []\<rparr>)"
    unfolding walk_def by (rule walk_headings_only[OF hs]) simp
  show "extractor doc = []"
    by (simp add: extractor_def w Let_def)
  show "snd (walk doc) =
      (if filter has_text (select_content doc) = [] then \<lparr>title = [], content = []\<rparr>
       else \<lparr>title = trim (text_of (last (filter has_text (select_content doc)))),
             content = []\<rparr>)"
    by (simp add: w)
next
  fix pre el post
  assume a: "select_content doc = pre @ el # post \<and> (\<forall>b \<in> set pre. \<not> has_text b)
      \<and> has_text el \<and> tagName el \<notin> set heading_tags"
  then have "el \<in> set (select_content doc)" by simp
  with a have "\<not> prefix ''h'' (tagName el)"
    using startsWith_h_iff_heading by blast
  with a obtain sec more where
    "flush (foldl each_element ([], \<lparr>title = [], content = []\<rparr>) (pre @ el # post)) = sec # more"
    "title sec = []"
    using walk_leading_content[of pre el post] by blast
  with a show "extractor doc \<noteq> []" "title (hd (extractor doc)) = []"
    by (simp_all add: extractor_flush)
qed

theorem extractor_never_flushes_empty_witness:
  "content (hd (extractor doc_A_x_B)) \<noteq> []
   \<and> extractor doc_headings_only = []
   \<and> snd (walk doc_headings_only) = \<lparr>title = ''C'', content = []\<rparr>
   \<and> extractor doc_leading_text \<noteq> []
   \<and> title (hd (extractor doc_leading_text)) = []"
proof -
  have 1: "hd (extractor doc_A_x_B) \<in> set (extractor doc_A_x_B)"
    by (simp add: extractor_eval doc_A_x_B_def)
  have 2: "\<forall>el \<in> set (select_content doc_headings_only).
      has_text el \<longrightarrow> tagName el \<in> set heading_tags"
    by (simp add: select_content_def extraction_tags_def doc_headings_only_def heading_tags_def)
  have 3: "trim (text_of (last (filter has_text (select_content doc_headings_only)))) = ''C''"
    "filter has_text (select_content doc_headings_only) \<noteq> []"
    by (simp_all add: select_content_def extraction_tags_def doc_headings_only_def has_text_def
        trim_def js_whitespace_def)
  have 4: "select_content doc_leading_text
        = [] @ Element ''p'' [] [Text ''intro''] #
            [Element ''h1'' [] [Text ''A''], Element ''p'' [] [Text ''x'']]
      \<and> (\<forall>b \<in> set []. \<not> has_text b)
      \<and> has_text (Element ''p'' [] [Text ''intro''])
      \<and> tagName (Element ''p'' [] [Text ''intro'']) \<notin> set heading_tags"
    by (simp add: select_content_def extraction_tags_def doc_leading_text_def has_text_def
        trim_def js_whitespace_def heading_tags_def)
  from extractor_never_flushes_empty[of doc_A_x_B] 1
  have "content (hd (extractor doc_A_x_B)) \<noteq> []" by blast
  moreover from extractor_never_flushes_empty[of doc_headings_only] 2 3
  have "extractor doc_headings_only = []
      \<and> snd (walk doc_headings_only) = \<lparr>title = ''C'', content = []\<rparr>"
    by simp
  moreover from extractor_never_flushes_empty[of doc_leading_text] 4
  have "extractor doc_leading_text \<noteq> [] \<and> title (hd (extractor doc_leading_text)) = []"
    by blast
  ultimately show ?thesis by blast
qed

subsection \<open>The loop and the handler\<close>

lemma iteration_cases:
  assumes "urlQueue s = u # rest"
  obtains
    (skip) "u \<in> set (visitedUrls s)"
      "iteration e b s = (Continue, s\<lparr>urlQueue := rest, trace := trace s @ [Shift u]\<rparr>)"
  | (unsent) "u \<notin> set (visitedUrls s)" "\<not> send e (Suc (length (trace s)))"
      "iteration e b s =
         (Break, s\<lparr>urlQueue := rest, trace := trace s @ [Shift u, Send (Visiting u) False]\<rparr>)"
  | (failed) "u \<notin> set (visitedUrls s)" "send e (Suc (length (trace s)))"
      "goto e (Suc (Suc (length (trace s)))) u = NavigationFailed"
      "iteration e b s =
         (Continue, s\<lparr>urlQueue := rest,
            trace := trace s @ [Shift u, Send (Visiting u) True, Goto u NavigationFailed]\<rparr>)"
  | (thrown) "u \<notin> set (visitedUrls s)" "send e (Suc (length (trace s)))"
      "goto e (Suc (Suc (length (trace s)))) u = ContentFailed"
      "iteration e b s =
         (Throw, s\<lparr>urlQueue := rest,
            trace := trace s @ [Shift u, Send (Visiting u) True, Goto u ContentFailed]\<rparr>)"
  | (rendered) doc where "u \<notin> set (visitedUrls s)" "send e (Suc (length (trace s)))"
      "goto e (Suc (Suc (length (trace s)))) u = Rendered doc"
      "iteration e b s =
         (Continue, s\<lparr>urlQueue := foldl (each_anchor e b (visitedUrls s)) rest (select_anchors doc),
            visitedUrls := visitedUrls s @ [u],
            scrapedData := scrapedData s @ [\<lparr>url = u, data = extractor doc\<rparr>],
            trace := trace s @ [Shift u, Send (Visiting u) True, Goto u (Rendered doc)]\<rparr>)"
proof (cases "u \<in> set (visitedUrls s)")
  case True
  then show ?thesis using assms skip by (simp add: iteration_def Let_def)
next
  case nv: False
  show ?thesis
  proof (cases "send e (Suc (length (trace s)))")
    case False
    then show ?thesis using assms nv unsent by (simp add: iteration_def Let_def)
  next
    case True
    show ?thesis
    proof (cases "goto e (Suc (Suc (length (trace s)))) u")
      case NavigationFailed
      then show ?thesis using assms nv True failed by (simp add: iteration_def Let_def)
    next
      case ContentFailed
      then show ?thesis using assms nv True thrown by (simp add: iteration_def Let_def)
    next
      case (Rendered doc)
      then show ?thesis using assms nv True rendered[of doc]
        by (simp add: iteration_def Let_def set_add_def)
    qed
  qed
qed

lemma pops_append [simp]: "pops (l @ l') = pops l @ pops l'"
  by (simp add: pops_def map_filter_def)

lemma announcements_append [simp]: "announcements (l @ l') = announcements l @ announcements l'"
  by (simp add: announcements_def map_filter_def)

lemma navigations_append [simp]: "navigations (l @ l') = navigations l @ navigations l'"
  by (simp add: navigations_def map_filter_def)

lemma pops_simps [simp]:
  "pops [] = []" "pops (Shift u # l) = u # pops l" "pops (Send m ok # l) = pops l"
  "pops (Goto u r # l) = pops l" "pops (Close ok # l) = pops l"
  "pops (Launch ok # l) = pops l" "pops (NewPage ok # l) = pops l"
  by (simp_all add: pops_def map_filter_def)

lemma announcements_simps [simp]:
  "announcements [] = []" "announcements (Shift u # l) = announcements l"
  "announcements (Send (Visiting u) ok # l) = u # announcements l"
  "announcements (Send (Error x) ok # l) = announcements l"
  "announcements (Send (ScrapedData d) ok # l) = announcements l"
  "announcements (Goto u r # l) = announcements l" "announcements (Close ok # l) = announcements l"
  "announcements (Launch ok # l) = announcements l" "announcements (NewPage ok # l) = announcements l"
  by (simp_all add: announcements_def map_filter_def)

lemma navigations_simps [simp]:
  "navigations [] = []" "navigations (Shift u # l) = navigations l"
  "navigations (Send m ok # l) = navigations l"
  "navigations (Goto u r # l) = (u, r) # navigations l" "navigations (Close ok # l) = navigations l"
  "navigations (Launch ok # l) = navigations l" "navigations (NewPage ok # l) = navigations l"
  by (simp_all add: navigations_def map_filter_def)

lemma navigations_set: "(u, r) \<in> set (navigations l) \<longleftrightarrow> Goto u r \<in> set l"
proof (induction l)
  case Nil
  then show ?case by simp
next
  case (Cons a l)
  then show ?case by (cases a) auto
qed

lemma no_revisit_snoc:
  "no_revisit (xs @ [(u, r)]) \<longleftrightarrow>
     no_revisit xs \<and> (\<forall>(u', r') \<in> set xs. r' = NavigationFailed \<or> u' \<noteq> u)"
  by (induction xs) auto

lemma no_revisit_decomp:
  "no_revisit l \<Longrightarrow> l = pre @ (u, r) # post \<Longrightarrow> (u, r') \<in> set post \<Longrightarrow> r = NavigationFailed"
proof (induction pre arbitrary: l)
  case Nil
  then show ?case by (auto simp: image_iff)
next
  case (Cons a pre)
  then show ?case by (cases a) auto
qed

lemma announced_first_snoc:
  "announced_first (l @ [a]) \<longleftrightarrow>
     announced_first l \<and> (\<forall>u r. a = Goto u r \<longrightarrow> (\<exists>pre'. l = pre' @ [Shift u, Send (Visiting u) True]))"
proof
  assume L: "announced_first (l @ [a])"
  have "announced_first l"
    unfolding announced_first_def
  proof (intro allI impI)
    fix pre u r post
    assume "l = pre @ Goto u r # post"
    then have "l @ [a] = pre @ Goto u r # (post @ [a])" by simp
    with L show "\<exists>pre'. pre = pre' @ [Shift u, Send (Visiting u) True]"
      unfolding announced_first_def by blast
  qed
  moreover have "\<forall>u r. a = Goto u r \<longrightarrow> (\<exists>pre'. l = pre' @ [Shift u, Send (Visiting u) True])"
    using L unfolding announced_first_def by blast
  ultimately show "announced_first l \<and> (\<forall>u r. a = Goto u r \<longrightarrow> (\<exists>pre'. l = pre' @ [Shift u, Send (Visiting u) True]))"
    by blast
next
  assume R: "announced_first l \<and> (\<forall>u r. a = Goto u r \<longrightarrow> (\<exists>pre'. l = pre' @ [Shift u, Send (Visiting u) True]))"
  show "announced_first (l @ [a])"
    unfolding announced_first_def
  proof (intro allI impI)
    fix pre u r post
    assume eq: "l @ [a] = pre @ Goto u r # post"
    show "\<exists>pre'. pre = pre' @ [Shift u, Send (Visiting u) True]"
    proof (cases post rule: rev_cases)
      case Nil
      with eq have "l = pre" "a = Goto u r" by simp_all
      with R show ?thesis by blast
    next
      case (snoc post' x)
      with eq have "l = pre @ Goto u r # post'" by simp
      with R show ?thesis unfolding announced_first_def by blast
    qed
  qed
qed

lemma announced_first_segment:
  assumes "announced_first l"
  shows "announced_first (l @ [Shift u])"
    "announced_first (l @ [Shift u, Send (Visiting u) ok])"
    "announced_first (l @ [Shift u, Send (Visiting u) True, Goto u r])"
proof -
  show 1: "announced_first (l @ [Shift u])"
    using assms by (simp add: announced_first_snoc)
  then have 2: "announced_first ((l @ [Shift u]) @ [Send (Visiting u) b])" for b
    by (simp only: announced_first_snoc) simp
  from 2[of ok] show "announced_first (l @ [Shift u, Send (Visiting u) ok])" by simp
  from 2[of True] have "announced_first (((l @ [Shift u]) @ [Send (Visiting u) True]) @ [Goto u r])"
    by (simp only: announced_first_snoc) simp
  then show "announced_first (l @ [Shift u, Send (Visiting u) True, Goto u r])" by simp
qed


lemma consistent_initial: "consistent (initial seed)" "settled (initial seed)"
  by (simp_all add: consistent_def settled_def initial_def MAX_PAGES_def announced_first_def
      Cons_eq_append_conv)

lemma consistent_append:
  assumes "consistent s"
    and "no_revisit (navigations (trace s @ seg))"
    and "announced_first (trace s @ seg)"
    and "subseq (announcements seg) (pops seg)"
    and "\<forall>a \<in> set seg. loop_action a"
    and "\<forall>u doc. Goto u (Rendered doc) \<notin> set seg"
  shows "consistent (s\<lparr>urlQueue := q, trace := trace s @ seg\<rparr>)"
  using assms unfolding consistent_def
  by (auto intro: list_emb_append_mono)

lemma settled_navigations:
  "settled s \<Longrightarrow> u \<notin> set (visitedUrls s) \<Longrightarrow>
   \<forall>(u', r') \<in> set (navigations (trace s)). r' = NavigationFailed \<or> u' \<noteq> u"
  by (clarsimp simp: navigations_set settled_def; blast)

lemma iteration_consistent:
  assumes c: "consistent s" and st: "settled s" and g: "loop_condition s"
    and it: "iteration e b s = (f, s')"
  shows "consistent s'"
proof -
  from g obtain u rest where q: "urlQueue s = u # rest"
    by (cases "urlQueue s") (auto simp: loop_condition_def)
  from q show ?thesis
  proof (cases rule: iteration_cases[where e = e and b = b])
    case skip
    have "consistent (s\<lparr>urlQueue := rest, trace := trace s @ [Shift u]\<rparr>)"
      using c by (intro consistent_append announced_first_segment) (simp_all add: consistent_def)
    with skip it show ?thesis by simp
  next
    case unsent
    have "consistent (s\<lparr>urlQueue := rest, trace := trace s @ [Shift u, Send (Visiting u) False]\<rparr>)"
      using c by (intro consistent_append announced_first_segment) (simp_all add: consistent_def)
    with unsent it show ?thesis by simp
  next
    case failed
    have "consistent (s\<lparr>urlQueue := rest,
        trace := trace s @ [Shift u, Send (Visiting u) True, Goto u NavigationFailed]\<rparr>)"
      using c settled_navigations[OF st failed(1)]
      by (intro consistent_append announced_first_segment)
        (simp_all add: consistent_def no_revisit_snoc)
    with failed it show ?thesis by simp
  next
    case thrown
    have "consistent (s\<lparr>urlQueue := rest,
        trace := trace s @ [Shift u, Send (Visiting u) True, Goto u ContentFailed]\<rparr>)"
      using c settled_navigations[OF st thrown(1)]
      by (intro consistent_append announced_first_segment)
        (simp_all add: consistent_def no_revisit_snoc)
    with thrown it show ?thesis by simp
  next
    case (rendered doc)
    let ?seg = "[Shift u, Send (Visiting u) True, Goto u (Rendered doc)]"
    let ?s' = "s\<lparr>urlQueue := foldl (each_anchor e b (visitedUrls s)) rest (select_anchors doc),
            visitedUrls := visitedUrls s @ [u],
            scrapedData := scrapedData s @ [\<lparr>url = u, data = extractor doc\<rparr>],
            trace := trace s @ ?seg\<rparr>"
    from g have "length (visitedUrls ?s') \<le> MAX_PAGES"
      by (simp add: loop_condition_def)
    moreover have "distinct (visitedUrls ?s')"
      using c rendered(1) by (simp add: consistent_def)
    moreover have "map url (scrapedData ?s') = visitedUrls ?s'"
      using c by (simp add: consistent_def)
    moreover have "\<forall>v d. Goto v (Rendered d) \<in> set (trace ?s') \<longrightarrow>
        \<lparr>url = v, data = extractor d\<rparr> \<in> set (scrapedData ?s')"
      using c by (auto simp: consistent_def)
    moreover have "\<forall>p \<in> set (scrapedData ?s'). \<exists>d.
        Goto (url p) (Rendered d) \<in> set (trace ?s') \<and> data p = extractor d"
      using c by (auto simp: consistent_def)
    moreover have "no_revisit (navigations (trace ?s'))"
      using c settled_navigations[OF st rendered(1)] by (simp add: consistent_def no_revisit_snoc)
    moreover have "announced_first (trace ?s')"
      using c by (simp add: consistent_def announced_first_segment)
    moreover have "subseq (announcements (trace ?s')) (pops (trace ?s'))"
      using c by (auto simp: consistent_def intro: list_emb_append_mono)
    moreover have "\<forall>a \<in> set (trace ?s'). loop_action a"
      using c by (simp add: consistent_def)
    ultimately have "consistent ?s'"
      unfolding consistent_def by blast
    with rendered it show ?thesis by simp
  qed
qed

lemma iteration_settled:
  assumes st: "settled s" and g: "loop_condition s"
    and it: "iteration e b s = (f, s')" and f: "f \<noteq> Throw"
  shows "settled s'"
proof -
  from g obtain u rest where q: "urlQueue s = u # rest"
    by (cases "urlQueue s") (auto simp: loop_condition_def)
  from q show ?thesis
  proof (cases rule: iteration_cases[where e = e and b = b])
    case skip
    with it st show ?thesis by (auto simp: settled_def; blast)
  next
    case unsent
    with it st show ?thesis by (auto simp: settled_def; blast)
  next
    case failed
    with it st show ?thesis by (auto simp: settled_def; blast)
  next
    case thrown
    with it f show ?thesis by simp
  next
    case (rendered doc)
    with it st show ?thesis by (auto simp: settled_def; blast)
  qed
qed


lemma loop_iterations:
  "\<exists>n. iterations n e b s = (if fst (loop e b s) then Throw else Break, snd (loop e b s))"
proof (induction e b s rule: loop.induct)
  case (1 e b s)
  show ?case
  proof (cases "loop_condition s")
    case False
    then have "iterations (Suc 0) e b s = (if fst (loop e b s) then Throw else Break, snd (loop e b s))"
      by (simp add: loop.simps[of e b s])
    then show ?thesis by blast
  next
    case True
    obtain f s' where it: "iteration e b s = (f, s')" by (cases "iteration e b s")
    show ?thesis
    proof (cases f)
      case Continue
      with 1[OF True it[symmetric]] obtain n where
        "iterations n e b s' = (if fst (loop e b s') then Throw else Break, snd (loop e b s'))"
        by blast
      with True it Continue
      have "iterations (Suc n) e b s = (if fst (loop e b s) then Throw else Break, snd (loop e b s))"
        by (simp add: loop.simps[of e b s])
      then show ?thesis by blast
    next
      case Break
      with True it
      have "iterations (Suc 0) e b s = (if fst (loop e b s) then Throw else Break, snd (loop e b s))"
        by (simp add: loop.simps[of e b s])
      then show ?thesis by blast
    next
      case Throw
      with True it
      have "iterations (Suc 0) e b s = (if fst (loop e b s) then Throw else Break, snd (loop e b s))"
        by (simp add: loop.simps[of e b s])
      then show ?thesis by blast
    qed
  qed
qed

lemma iterations_consistent:
  "consistent s \<Longrightarrow> settled s \<Longrightarrow>
   consistent (snd (iterations n e b s))
   \<and> (fst (iterations n e b s) \<noteq> Throw \<longrightarrow> settled (snd (iterations n e b s)))"
proof (induction n arbitrary: s)
  case 0
  then show ?case by simp
next
  case (Suc n)
  show ?case
  proof (cases "loop_condition s")
    case False
    with Suc.prems show ?thesis by simp
  next
    case True
    obtain f s' where it: "iteration e b s = (f, s')" by (cases "iteration e b s")
    have c': "consistent s'"
      using iteration_consistent[OF Suc.prems True it] .
    show ?thesis
    proof (cases f)
      case Continue
      then have "settled s'"
        using iteration_settled[OF Suc.prems(2) True it] by simp
      with True it Continue Suc.IH[OF c'] show ?thesis by simp
    next
      case Break
      then have "settled s'"
        using iteration_settled[OF Suc.prems(2) True it] by simp
      with True it Break c' show ?thesis by simp
    next
      case Throw
      with True it c' show ?thesis by simp
    qed
  qed
qed

lemma crawl_consistent: "consistent (snd (crawl e b seed))"
proof -
  obtain n where "snd (iterations n e b (initial seed)) = snd (crawl e b seed)"
    using loop_iterations[of e b "initial seed"] unfolding crawl_def by (metis snd_conv)
  with iterations_consistent[of "initial seed" n e b] consistent_initial[of seed]
  show ?thesis by simp
qed

lemma handler_cases:
  obtains
    (early) msg ok where "handler e m = \<lparr>actions = [Send (Error msg) ok], rejected = \<not> ok\<rparr>"
  | (type_error) "handler e m = \<lparr>actions = [], rejected = True\<rparr>"
  | (no_browser) msg ok where
      "handler e m = \<lparr>actions = [Launch False, Send (Error msg) ok], rejected = False\<rparr>"
  | (no_page) msg ok c where
      "handler e m =
         \<lparr>actions = [Launch True, NewPage False, Send (Error msg) ok, Close c], rejected = \<not> c\<rparr>"
  | (no_origin) msg ok c where
      "handler e m =
         \<lparr>actions = [Launch True, NewPage True, Send (Error msg) ok, Close c], rejected = \<not> c\<rparr>"
  | (thrown) b seed msg ok c where "fst (crawl e b seed)"
      "handler e m =
         \<lparr>actions = trace (snd (crawl e b seed)) @ [Send (Error msg) ok, Close c],
          rejected = \<not> c\<rparr>"
  | (close_failed) b seed msg ok c where "\<not> fst (crawl e b seed)"
      "handler e m =
         \<lparr>actions = trace (snd (crawl e b seed)) @ [Close False, Send (Error msg) ok, Close c],
          rejected = \<not> c\<rparr>"
  | (completed) b seed ok where "\<not> fst (crawl e b seed)"
      "handler e m =
         \<lparr>actions = trace (snd (crawl e b seed))
            @ [Close True, Send (ScrapedData (scrapedData (snd (crawl e b seed)))) ok],
          rejected = False\<rparr>"
proof (cases m)
  case SyntaxError
  then show ?thesis using early by (simp add: handler_def Let_def)
next
  case (Parsed v)
  show ?thesis
  proof (cases "destructure_url v")
    case None
    with Parsed show ?thesis using type_error by (simp add: handler_def)
  next
    case (Some seed)
    show ?thesis
    proof (cases "falsy seed")
      case True
      with Parsed Some show ?thesis using early by (simp add: handler_def Let_def)
    next
      case nf: False
      then have h: "handler e m = session e seed"
        using Parsed Some by (simp add: handler_def)
      show ?thesis
      proof (cases "launch e")
        case False
        with h show ?thesis using no_browser
          by (simp add: session_def catch_block_def Let_def)
      next
        case l: True
        show ?thesis
        proof (cases "newPage e")
          case False
          with h l show ?thesis using no_page
            by (simp add: session_def catch_block_def Let_def)
        next
          case np: True
          show ?thesis
          proof (cases "origin e seed")
            case None
            with h l np show ?thesis using no_origin
              by (simp add: session_def catch_block_def Let_def)
          next
            case (Some b)
            obtain t s where c: "crawl e b seed = (t, s)" by (cases "crawl e b seed")
            show ?thesis
            proof (cases t)
              case True
              with h l np Some c show ?thesis using thrown[of b seed]
                by (simp add: session_def catch_block_def Let_def)
            next
              case False
              show ?thesis
              proof (cases "close e (length (trace s))")
                case True
                with h l np Some c False show ?thesis using completed[of b seed]
                  by (simp add: session_def Let_def)
              next
                case cf: False
                with h l np Some c False show ?thesis using close_failed[of b seed]
                  by (simp add: session_def catch_block_def Let_def)
              qed
            qed
          qed
        qed
      qed
    qed
  qed
qed

lemma announced_first_short:
  "announced_first []" "announced_first [Send x ok]" "announced_first [Launch False, Send x ok]"
  "announced_first [Launch True, NewPage c, Send x ok, Close c']"
  by (simp_all add: announced_first_def Cons_eq_append_conv)

lemma announced_first_tail:
  assumes "announced_first l"
  shows "announced_first (l @ [Send (Error msg) ok, Close c])"
    "announced_first (l @ [Close c', Send x ok, Close c])"
    "announced_first (l @ [Close c', Send x ok])"
proof -
  have 1: "announced_first (l @ [Send x ok])" for x ok
    using assms by (simp add: announced_first_snoc)
  have 2: "announced_first (l @ [Close c])" for c
    using assms by (simp add: announced_first_snoc)
  have "announced_first ((l @ [Send (Error msg) ok]) @ [Close c])"
    using 1 by (simp only: announced_first_snoc) simp
  then show "announced_first (l @ [Send (Error msg) ok, Close c])" by simp
  have 3: "announced_first ((l @ [Close c']) @ [Send x ok])"
    using 2 by (simp only: announced_first_snoc) simp
  then show "announced_first (l @ [Close c', Send x ok])" by simp
  from 3 have "announced_first (((l @ [Close c']) @ [Send x ok]) @ [Close c])"
    by (simp only: announced_first_snoc) simp
  then show "announced_first (l @ [Close c', Send x ok, Close c])" by simp
qed

lemma handler_announced_first: "announced_first (actions (handler e m))"
proof -
  have c: "announced_first (trace (snd (crawl e b seed)))" for b seed
    using crawl_consistent[of e b seed] by (simp add: consistent_def)
  show ?thesis
    by (cases e m rule: handler_cases)
      (simp_all add: announced_first_short announced_first_tail[OF c])
qed

subsection \<open>The claims about the crawl\<close>

lemma iteration_ledger:
  "prefix (visitedUrls s) (visitedUrls (snd (iteration e b s)))
   \<and> length (visitedUrls (snd (iteration e b s))) \<le> Suc (length (visitedUrls s))"
  by (simp add: iteration_def Let_def set_add_def split: rendering.splits)

text \<open>
  Claim C1: the visited set never holds more than \<open>MAX_PAGES\<close> (1000) URLs. After any number
  \<open>n\<close> of iterations of the loop, from any seed and in any environment, the visited set
  has at most \<open>MAX_PAGES\<close> entries and no duplicates, and so has the visited set the loop
  ends with. One run of the loop body only extends the visited set, by at most one URL.
\<close>

theorem visited_ledger_bounded:
  "MAX_PAGES = 1000
   \<and> length (visitedUrls (snd (iterations n e baseUrl (initial seed)))) \<le> MAX_PAGES
   \<and> distinct (visitedUrls (snd (iterations n e baseUrl (initial seed))))
   \<and> length (visitedUrls (snd (crawl e baseUrl seed))) \<le> MAX_PAGES
   \<and> distinct (visitedUrls (snd (crawl e baseUrl seed)))
   \<and> prefix (visitedUrls s) (visitedUrls (snd (iteration e baseUrl s)))
   \<and> length (visitedUrls (snd (iteration e baseUrl s))) \<le> Suc (length (visitedUrls s))"
proof -
  have "consistent (snd (iterations n e baseUrl (initial seed)))"
    using iterations_consistent[of "initial seed" n e baseUrl] consistent_initial[of seed]
    by simp
  moreover have "consistent (snd (crawl e baseUrl seed))"
    by (rule crawl_consistent)
  ultimately show ?thesis
    using iteration_ledger[of s e baseUrl] MAX_PAGES_def by (simp add: consistent_def)
qed

theorem visited_ledger_bounded_witness:
  "visitedUrls (snd (iterations 2 (site [''/u2'', ''/u3'']) ''https://a.example'' (initial seed_url)))
     = [seed_url]
   \<and> visitedUrls (snd (crawl (site [''/u2'', ''/u3'']) ''https://a.example'' seed_url))
     = [seed_url, JStr ''https://a.example/u3'']
   \<and> length (visitedUrls (snd (crawl (site [''/u2'', ''/u3'']) ''https://a.example'' seed_url)))
     \<le> MAX_PAGES
   \<and> length (visitedUrls (snd (iteration (site [''/u2'', ''/u3'']) ''https://a.example''
        (initial seed_url)))) \<le> Suc (length (visitedUrls (initial seed_url)))"
proof -
  have "visitedUrls (snd (iterations 2 (site [''/u2'', ''/u3'']) ''https://a.example''
      (initial seed_url))) = [seed_url]"
    by code_simp
  moreover have "visitedUrls (snd (crawl (site [''/u2'', ''/u3'']) ''https://a.example'' seed_url))
     = [seed_url, JStr ''https://a.example/u3'']"
    by code_simp
  ultimately show ?thesis
    using visited_ledger_bounded[of 2 "site [''/u2'', ''/u3'']" "''https://a.example''" seed_url
        "initial seed_url"]
    by simp
qed

lemma each_anchor_candidate:
  "each_anchor e b visited queue el =
     queue @ (case candidate e b visited el of None \<Rightarrow> [] | Some x \<Rightarrow> [x])"
  by (simp add: each_anchor_def candidate_def split: option.splits)

lemma foldl_each_anchor:
  "foldl (each_anchor e b visited) queue els = queue @ List.map_filter (candidate e b visited) els"
proof (induction els arbitrary: queue)
  case Nil
  then show ?case by (simp add: map_filter_simps)
next
  case (Cons el els)
  have "foldl (each_anchor e b visited) queue (el # els)
      = each_anchor e b visited queue el @ List.map_filter (candidate e b visited) els"
    by (simp only: foldl_Cons Cons)
  also have "\<dots> = queue @ List.map_filter (candidate e b visited) (el # els)"
    by (cases "candidate e b visited el") (simp_all add: each_anchor_candidate map_filter_simps)
  finally show ?case .
qed

lemma candidate_scope: "candidate e b visited el = Some x \<Longrightarrow> resolved_in_scope e b x"
  by (auto simp: candidate_def resolved_in_scope_def split: option.splits if_splits)

lemma map_filter_candidate_scope:
  "x \<in> set (List.map_filter (candidate e b visited) els) \<Longrightarrow> resolved_in_scope e b x"
  by (auto simp: map_filter_def dest: candidate_scope)

lemma iteration_scoped:
  assumes sc: "scoped e b seed s" and g: "loop_condition s"
  shows "scoped e b seed (snd (iteration e b s))"
proof -
  from g obtain u rest where q: "urlQueue s = u # rest"
    by (cases "urlQueue s") (auto simp: loop_condition_def)
  from q show ?thesis
  proof (cases rule: iteration_cases[where e = e and b = b])
    case skip
    with sc q show ?thesis by (auto simp: scoped_def)
  next
    case unsent
    with sc q show ?thesis by (auto simp: scoped_def)
  next
    case failed
    with sc q show ?thesis by (auto simp: scoped_def)
  next
    case thrown
    with sc q show ?thesis by (auto simp: scoped_def)
  next
    case (rendered doc)
    with sc q show ?thesis
      by (auto simp: scoped_def foldl_each_anchor dest: map_filter_candidate_scope)
  qed
qed

lemma iterations_scoped:
  "scoped e b seed s \<Longrightarrow> scoped e b seed (snd (iterations n e b s))"
proof (induction n arbitrary: s)
  case 0
  then show ?case by simp
next
  case (Suc n)
  show ?case
  proof (cases "loop_condition s")
    case False
    with Suc.prems show ?thesis by simp
  next
    case True
    obtain f s' where it: "iteration e b s = (f, s')" by (cases "iteration e b s")
    from iteration_scoped[OF Suc.prems True] it have "scoped e b seed s'" by simp
    with True it Suc.IH[of s'] show ?thesis by (cases f) simp_all
  qed
qed

lemma crawl_scoped: "scoped e b seed (snd (crawl e b seed))"
proof -
  obtain n where "snd (iterations n e b (initial seed)) = snd (crawl e b seed)"
    using loop_iterations[of e b "initial seed"] unfolding crawl_def by (metis snd_conv)
  moreover have "scoped e b seed (initial seed)"
    by (simp add: scoped_def initial_def)
  ultimately show ?thesis
    using iterations_scoped[of e b seed "initial seed" n] by simp
qed

text \<open>The session crawls with the origin of the seed as its base.\<close>

lemma session_crawl:
  assumes "launch e" "newPage e" "origin e seed = Some b"
  shows "\<exists>tail. actions (session e seed) = trace (snd (crawl e b seed)) @ tail
      \<and> pops tail = [] \<and> navigations tail = []"
proof (cases "crawl e b seed")
  case (Pair t s)
  then show ?thesis using assms
    by (cases t; cases "close e (length (trace s))")
      (simp_all add: session_def catch_block_def Let_def)
qed

lemma session_pops:
  assumes "origin e seed = Some b"
  shows "set (pops (actions (session e seed))) \<subseteq> set (pops (trace (snd (crawl e b seed))))"
proof (cases "launch e \<and> newPage e")
  case True
  with session_crawl[of e seed b] assms show ?thesis by auto
next
  case False
  then show ?thesis by (auto simp: session_def catch_block_def Let_def)
qed

lemma handler_pops_scoped:
  assumes d: "destructure_url msgData = Some seed" and o: "origin e seed = Some b"
    and u: "u \<in> set (pops (actions (handler e (Parsed msgData))))"
  shows "u = seed \<or> resolved_in_scope e b u"
proof (cases "falsy seed")
  case True
  with d u show ?thesis by (simp add: handler_def Let_def)
next
  case False
  with d have "handler e (Parsed msgData) = session e seed" by (simp add: handler_def)
  with u session_pops[OF o] have "u \<in> set (pops (trace (snd (crawl e b seed))))" by auto
  with crawl_scoped[of e b seed] show ?thesis by (auto simp: scoped_def)
qed

lemma handler_no_origin:
  assumes d: "destructure_url msgData = Some seed" and o: "origin e seed = None"
  shows "pops (actions (handler e (Parsed msgData))) = []"
  using assms by (auto simp: handler_def session_def catch_block_def Let_def)

text \<open>
  Claim C3, as the spec states it: every href is resolved against the scope anchor, and the
  resolved URL is pushed if and only if it starts with the scope anchor. It fails for an
  href that is, as raw text, already in the visited set: \<open>https://a.example/page2\<close>
  resolves to itself, which starts with \<open>https://a.example\<close>, and is not pushed.
\<close>

theorem link_resolver_counterexample:
  "attr (Element ''a'' [(''href'', ''https://a.example/page2'')] []) ''href''
     = Some ''https://a.example/page2''
   \<and> href (site []) ''https://a.example/page2'' ''https://a.example''
     = Some ''https://a.example/page2''
   \<and> prefix ''https://a.example'' ''https://a.example/page2''
   \<and> each_anchor (site []) ''https://a.example'' [JStr ''https://a.example/page2''] []
        (Element ''a'' [(''href'', ''https://a.example/page2'')] []) = []"
  by (simp add: each_anchor_def site_def site_href_def)

text \<open>
  Claim C3, amended: for every anchor href that is not empty and is not, as raw text, in the
  visited set, the href is resolved against the scope anchor of the session, which is the
  origin of the seed URL whatever the current page; an href whose resolution fails is
  discarded, and the resolved URL is pushed onto the back of the queue if and only if it
  starts with the scope anchor. An empty href and an href in the visited set are skipped
  unresolved. Over a whole page the queue grows at its back by the accepted URLs in
  document order. A handler run whose seed has an origin logs the crawl made with that
  origin as base, and every URL it pops is the seed or the resolution of an href against
  that origin, starting with it; a seed without origin is not crawled. With scope anchor
  \<open>https://a.example\<close>, such a link resolving to \<open>https://a.example/page2\<close> is enqueued
  and one resolving to \<open>https://other.example/x\<close> is not.
\<close>

theorem link_resolver:
  "foldl (each_anchor e baseUrl visited) queue (select_anchors doc)
     = queue @ List.map_filter (candidate e baseUrl visited) (select_anchors doc)
   \<and> (attr el ''href'' = Some link \<and> link \<noteq> [] \<and> JStr link \<notin> set visited \<longrightarrow>
        each_anchor e baseUrl visited queue el =
          (case href e link baseUrl of
             None \<Rightarrow> queue
           | Some absoluteLink \<Rightarrow>
               if prefix baseUrl absoluteLink then queue @ [JStr absoluteLink] else queue))
   \<and> (attr el ''href'' = Some link \<and> (link = [] \<or> JStr link \<in> set visited) \<longrightarrow>
        each_anchor e baseUrl visited queue el = queue)
   \<and> (urlQueue s = u # rest \<and> u \<notin> set (visitedUrls s) \<and> send e (Suc (length (trace s)))
        \<and> goto e (Suc (Suc (length (trace s)))) u = Rendered doc \<longrightarrow>
        urlQueue (snd (iteration e baseUrl s)) =
          rest @ List.map_filter (candidate e baseUrl (visitedUrls s)) (select_anchors doc))
   \<and> (attr el ''href'' = Some link \<and> link \<noteq> [] \<and> JStr link \<notin> set visited
        \<and> href e link ''https://a.example'' = Some ''https://a.example/page2'' \<longrightarrow>
        each_anchor e ''https://a.example'' visited queue el
          = queue @ [JStr ''https://a.example/page2''])
   \<and> (attr el ''href'' = Some link
        \<and> href e link ''https://a.example'' = Some ''https://other.example/x'' \<longrightarrow>
        each_anchor e ''https://a.example'' visited queue el = queue)
   \<and> (destructure_url msgData = Some seed \<and> \<not> falsy seed \<and> launch e \<and> newPage e
        \<and> origin e seed = Some baseUrl \<longrightarrow>
        (\<exists>tail. actions (handler e (Parsed msgData)) = trace (snd (crawl e baseUrl seed)) @ tail
           \<and> pops tail = [] \<and> navigations tail = []))
   \<and> (destructure_url msgData = Some seed \<and> origin e seed = Some baseUrl \<longrightarrow>
        (\<forall>v \<in> set (pops (actions (handler e (Parsed msgData)))).
           v = seed
           \<or> (\<exists>link' a. v = JStr a \<and> href e link' baseUrl = Some a \<and> prefix baseUrl a)))
   \<and> (destructure_url msgData = Some seed \<and> origin e seed = None \<longrightarrow>
        pops (actions (handler e (Parsed msgData))) = [])"
proof (intro conjI impI)
  show "foldl (each_anchor e baseUrl visited) queue (select_anchors doc)
     = queue @ List.map_filter (candidate e baseUrl visited) (select_anchors doc)"
    by (rule foldl_each_anchor)
next
  assume "attr el ''href'' = Some link \<and> link \<noteq> [] \<and> JStr link \<notin> set visited"
  then show "each_anchor e baseUrl visited queue el =
          (case href e link baseUrl of
             None \<Rightarrow> queue
           | Some absoluteLink \<Rightarrow>
               if prefix baseUrl absoluteLink then queue @ [JStr absoluteLink] else queue)"
    by (simp add: each_anchor_def)
next
  assume "attr el ''href'' = Some link \<and> (link = [] \<or> JStr link \<in> set visited)"
  then show "each_anchor e baseUrl visited queue el = queue"
    by (auto simp: each_anchor_def)
next
  assume a: "urlQueue s = u # rest \<and> u \<notin> set (visitedUrls s) \<and> send e (Suc (length (trace s)))
        \<and> goto e (Suc (Suc (length (trace s)))) u = Rendered doc"
  then have "urlQueue s = u # rest" by simp
  then show "urlQueue (snd (iteration e baseUrl s)) =
          rest @ List.map_filter (candidate e baseUrl (visitedUrls s)) (select_anchors doc)"
    using a by (cases rule: iteration_cases[where e = e and b = baseUrl])
      (simp_all add: foldl_each_anchor)
next
  assume "attr el ''href'' = Some link \<and> link \<noteq> [] \<and> JStr link \<notin> set visited
        \<and> href e link ''https://a.example'' = Some ''https://a.example/page2''"
  then show "each_anchor e ''https://a.example'' visited queue el
          = queue @ [JStr ''https://a.example/page2'']"
    by (simp add: each_anchor_def)
next
  assume "attr el ''href'' = Some link
        \<and> href e link ''https://a.example'' = Some ''https://other.example/x''"
  then show "each_anchor e ''https://a.example'' visited queue el = queue"
    by (simp add: each_anchor_def)
next
  assume a: "destructure_url msgData = Some seed \<and> \<not> falsy seed \<and> launch e \<and> newPage e
        \<and> origin e seed = Some baseUrl"
  then have "handler e (Parsed msgData) = session e seed"
    by (simp add: handler_def)
  with a show "\<exists>tail. actions (handler e (Parsed msgData))
        = trace (snd (crawl e baseUrl seed)) @ tail \<and> pops tail = [] \<and> navigations tail = []"
    using session_crawl[of e seed baseUrl] by simp
next
  assume a: "destructure_url msgData = Some seed \<and> origin e seed = Some baseUrl"
  show "\<forall>v \<in> set (pops (actions (handler e (Parsed msgData)))).
           v = seed
           \<or> (\<exists>link' a. v = JStr a \<and> href e link' baseUrl = Some a \<and> prefix baseUrl a)"
  proof
    fix v
    assume "v \<in> set (pops (actions (handler e (Parsed msgData))))"
    with a have "v = seed \<or> resolved_in_scope e baseUrl v"
      using handler_pops_scoped[of msgData seed e baseUrl v] by blast
    then show "v = seed
        \<or> (\<exists>link' a. v = JStr a \<and> href e link' baseUrl = Some a \<and> prefix baseUrl a)"
      by (simp add: resolved_in_scope_def)
  qed
next
  assume "destructure_url msgData = Some seed \<and> origin e seed = None"
  then show "pops (actions (handler e (Parsed msgData))) = []"
    using handler_no_origin[of msgData seed e] by blast
qed

theorem link_resolver_witness:
  "foldl (each_anchor (site []) ''https://a.example'' [JStr ''/u2'']) [seed_url]
     (select_anchors (seed_page [''/page2'', ''https://other.example/x'', ''/u2'', []]))
     = [seed_url, JStr ''https://a.example/page2'']
   \<and> each_anchor (site []) ''https://a.example'' [] [seed_url]
       (Element ''a'' [(''href'', ''/page2'')] []) = [seed_url, JStr ''https://a.example/page2'']
   \<and> each_anchor (site []) ''https://a.example'' [] [seed_url]
       (Element ''a'' [(''href'', ''https://other.example/x'')] []) = [seed_url]
   \<and> each_anchor (site []) ''https://a.example'' [JStr ''/u2''] [seed_url]
       (Element ''a'' [(''href'', ''/u2'')] []) = [seed_url]
   \<and> urlQueue (snd (iteration (site [''/page2'', ''https://other.example/x''])
       ''https://a.example'' (initial seed_url))) = [JStr ''https://a.example/page2'']
   \<and> origin (site [''/page2'', ''https://other.example/x'']) seed_url = Some ''https://a.example''
   \<and> (\<exists>tail. actions (handler (site [''/page2'', ''https://other.example/x'']) request)
         = trace (snd (crawl (site [''/page2'', ''https://other.example/x''])
             ''https://a.example'' seed_url)) @ tail
         \<and> pops tail = [] \<and> navigations tail = [])
   \<and> pops (actions (handler (site [''/page2'', ''https://other.example/x'']) request))
       = [seed_url, JStr ''https://a.example/page2'']
   \<and> (\<exists>link' a. JStr ''https://a.example/page2'' = JStr a
         \<and> href (site [''/page2'', ''https://other.example/x'']) link' ''https://a.example'' = Some a
         \<and> prefix ''https://a.example'' a)
   \<and> origin (site []) (JStr ''ftp://a.example'') = None
   \<and> pops (actions (handler (site []) (Parsed (JObj [(''url'', JStr ''ftp://a.example'')])))) = []"
proof -
  let ?b = "''https://a.example''"
  let ?doc = "seed_page [''/page2'', ''https://other.example/x'', ''/u2'', []]"
  let ?a1 = "Element ''a'' [(''href'', ''/page2'')] []"
  let ?a2 = "Element ''a'' [(''href'', ''https://other.example/x'')] []"
  let ?a3 = "Element ''a'' [(''href'', ''/u2'')] []"
  let ?e = "site [''/page2'', ''https://other.example/x'']"
  let ?m = "JObj [(''url'', seed_url)]"
  let ?ftp = "JStr ''ftp://a.example''"
  have c: "List.map_filter (candidate (site []) ?b [JStr ''/u2'']) (select_anchors ?doc)
      = [JStr ''https://a.example/page2'']"
    by (simp add: select_anchors_def seed_page_def candidate_def site_def site_href_def
        map_filter_simps)
  have h1: "attr ?a1 ''href'' = Some ''/page2'' \<and> ''/page2'' \<noteq> [] \<and> JStr ''/page2'' \<notin> set []
      \<and> href (site []) ''/page2'' ?b = Some ''https://a.example/page2''"
    by (simp add: site_def site_href_def)
  have h2: "attr ?a2 ''href'' = Some ''https://other.example/x''
      \<and> href (site []) ''https://other.example/x'' ?b = Some ''https://other.example/x''"
    by (simp add: site_def site_href_def)
  have h3: "attr ?a3 ''href'' = Some ''/u2'' \<and> (''/u2'' = [] \<or> JStr ''/u2'' \<in> set [JStr ''/u2''])"
    by simp
  have h4: "urlQueue (initial seed_url) = seed_url # []
      \<and> seed_url \<notin> set (visitedUrls (initial seed_url))
      \<and> send ?e (Suc (length (trace (initial seed_url))))
      \<and> goto ?e (Suc (Suc (length (trace (initial seed_url))))) seed_url
          = Rendered (seed_page [''/page2'', ''https://other.example/x''])"
    by (simp add: initial_def site_def site_goto_def seed_url_def)
  have c4: "List.map_filter (candidate ?e ?b (visitedUrls (initial seed_url)))
      (select_anchors (seed_page [''/page2'', ''https://other.example/x'']))
      = [JStr ''https://a.example/page2'']"
    by (simp add: select_anchors_def seed_page_def candidate_def site_def site_href_def
        map_filter_simps initial_def)
  have o: "origin ?e seed_url = Some ?b"
    by (simp add: site_def site_origin_def seed_url_def)
  have h5: "destructure_url ?m = Some seed_url \<and> \<not> falsy seed_url \<and> launch ?e \<and> newPage ?e
      \<and> origin ?e seed_url = Some ?b"
    using o by (simp add: site_def seed_url_def)
  have p: "pops (actions (handler ?e request)) = [seed_url, JStr ''https://a.example/page2'']"
    by code_simp
  have ne: "JStr ''https://a.example/page2'' \<noteq> seed_url"
    by (simp add: seed_url_def)
  have o': "origin (site []) ?ftp = None"
    by (simp add: site_def site_origin_def)
  have h6: "destructure_url (JObj [(''url'', ?ftp)]) = Some ?ftp \<and> origin (site []) ?ftp = None"
    using o' by simp
  from link_resolver[where e = "site []" and baseUrl = ?b and visited = "[JStr ''/u2'']"
      and queue = "[seed_url]" and doc = ?doc] c
  have "foldl (each_anchor (site []) ?b [JStr ''/u2'']) [seed_url] (select_anchors ?doc)
     = [seed_url, JStr ''https://a.example/page2'']"
    by simp
  moreover
  from link_resolver[where e = "site []" and visited = "[]" and queue = "[seed_url]"
      and el = ?a1 and link = "''/page2''"] h1
  have "each_anchor (site []) ?b [] [seed_url] ?a1 = [seed_url, JStr ''https://a.example/page2'']"
    by simp
  moreover
  from link_resolver[where e = "site []" and visited = "[]" and queue = "[seed_url]"
      and el = ?a2 and link = "''https://other.example/x''"] h2
  have "each_anchor (site []) ?b [] [seed_url] ?a2 = [seed_url]"
    by blast
  moreover
  from link_resolver[where e = "site []" and baseUrl = ?b and visited = "[JStr ''/u2'']"
      and queue = "[seed_url]" and el = ?a3 and link = "''/u2''"] h3
  have "each_anchor (site []) ?b [JStr ''/u2''] [seed_url] ?a3 = [seed_url]"
    by blast
  moreover
  from link_resolver[where e = ?e and baseUrl = ?b and s = "initial seed_url" and u = seed_url
      and rest = "[]" and doc = "seed_page [''/page2'', ''https://other.example/x'']"] h4 c4
  have "urlQueue (snd (iteration ?e ?b (initial seed_url))) = [JStr ''https://a.example/page2'']"
    by simp
  moreover
  from link_resolver[where e = ?e and baseUrl = ?b and msgData = ?m and seed = seed_url] h5
  have "\<exists>tail. actions (handler ?e (Parsed ?m)) = trace (snd (crawl ?e ?b seed_url)) @ tail
         \<and> pops tail = [] \<and> navigations tail = []"
    by blast
  moreover
  from link_resolver[where e = ?e and baseUrl = ?b and msgData = ?m and seed = seed_url] h5
  have "\<forall>v \<in> set (pops (actions (handler ?e (Parsed ?m)))).
      v = seed_url \<or> (\<exists>link' a. v = JStr a \<and> href ?e link' ?b = Some a \<and> prefix ?b a)"
    by blast
  with p ne have "\<exists>link' a. JStr ''https://a.example/page2'' = JStr a
      \<and> href ?e link' ?b = Some a \<and> prefix ?b a"
    by (simp add: request_def)
  moreover
  from link_resolver[where e = "site []" and msgData = "JObj [(''url'', ?ftp)]" and seed = ?ftp] h6
  have "pops (actions (handler (site []) (Parsed (JObj [(''url'', ?ftp)])))) = []"
    by blast
  ultimately show ?thesis
    using o o' p by (simp add: request_def)
qed

lemma crawl_unrendered:
  assumes "\<forall>doc. Goto u (Rendered doc) \<notin> set (trace (snd (crawl e b seed)))"
  shows "u \<notin> set (visitedUrls (snd (crawl e b seed)))"
    and "u \<notin> url ` set (scrapedData (snd (crawl e b seed)))"
proof -
  have c: "consistent (snd (crawl e b seed))" by (rule crawl_consistent)
  show 2: "u \<notin> url ` set (scrapedData (snd (crawl e b seed)))"
  proof
    assume "u \<in> url ` set (scrapedData (snd (crawl e b seed)))"
    then obtain p where "p \<in> set (scrapedData (snd (crawl e b seed)))" "url p = u" by auto
    with c obtain doc where "Goto u (Rendered doc) \<in> set (trace (snd (crawl e b seed)))"
      unfolding consistent_def by blast
    with assms show False by blast
  qed
  have "set (visitedUrls (snd (crawl e b seed))) = url ` set (scrapedData (snd (crawl e b seed)))"
    using c unfolding consistent_def by (metis set_map)
  with 2 show "u \<notin> set (visitedUrls (snd (crawl e b seed)))" by simp
qed

text \<open>
  Claim C2, as the spec states it: a URL whose navigation fails is not retried (one attempt
  per URL). It fails when a page links twice to the failing URL: here the seed page has two
  anchors to \<open>/u2\<close>, and the failed navigation of \<open>/u2\<close> is followed by a second one.
\<close>

theorem retry_counterexample:
  "navigations (actions (handler (site [''/u2'', ''/u2'']) request))
     = [(seed_url, Rendered (seed_page [''/u2'', ''/u2''])),
        (JStr ''https://a.example/u2'', NavigationFailed),
        (JStr ''https://a.example/u2'', NavigationFailed)]"
  by code_simp

text \<open>
  Claim C2, amended: a URL popped from the queue whose navigation fails is not added to the
  visited set and gets no page record; that pop makes one navigation attempt, and the loop
  continues with the rest of the queue. The URL is navigated again only when it is popped
  again: in the log of a whole run every navigation comes right after a pop of its URL and
  the sent \<open>visiting\<close> message. At the end of a crawl a URL that was never rendered is
  neither in the visited set nor in the results. In the scenario (the seed links to
  \<open>/u2\<close>, which fails, and to \<open>/u3\<close>, which is rendered) all three are navigated, the
  results are the records of the seed and of \<open>/u3\<close>, and \<open>/u2\<close> is not in the
  visited set.
\<close>

theorem navigation_failure_skips:
  "(urlQueue s = u # rest \<and> u \<notin> set (visitedUrls s) \<and> send e (Suc (length (trace s)))
      \<and> goto e (Suc (Suc (length (trace s)))) u = NavigationFailed \<longrightarrow>
    iteration e baseUrl s =
      (Continue, s\<lparr>urlQueue := rest,
         trace := trace s @ [Shift u, Send (Visiting u) True, Goto u NavigationFailed]\<rparr>))
   \<and> announced_first (actions (handler e m))
   \<and> ((\<forall>doc. Goto v (Rendered doc) \<notin> set (trace (snd (crawl e baseUrl seed)))) \<longrightarrow>
        v \<notin> set (visitedUrls (snd (crawl e baseUrl seed)))
        \<and> v \<notin> url ` set (scrapedData (snd (crawl e baseUrl seed))))
   \<and> map fst (navigations (trace (snd (crawl (site [''/u2'', ''/u3'']) ''https://a.example'' seed_url))))
       = [seed_url, JStr ''https://a.example/u2'', JStr ''https://a.example/u3'']
   \<and> map url (scrapedData (snd (crawl (site [''/u2'', ''/u3'']) ''https://a.example'' seed_url)))
       = [seed_url, JStr ''https://a.example/u3'']
   \<and> visitedUrls (snd (crawl (site [''/u2'', ''/u3'']) ''https://a.example'' seed_url))
       = [seed_url, JStr ''https://a.example/u3'']
   \<and> stream (actions (handler (site [''/u2'', ''/u3'']) request))
       = [Visiting seed_url, Visiting (JStr ''https://a.example/u2''),
          Visiting (JStr ''https://a.example/u3''),
          ScrapedData
            [\<lparr>url = seed_url, data = [\<lparr>title = ''Home'', content = [(''p'', ''welcome'')]\<rparr>]\<rparr>,
             \<lparr>url = JStr ''https://a.example/u3'', data = []\<rparr>]]"
proof (intro conjI impI)
  assume a: "urlQueue s = u # rest \<and> u \<notin> set (visitedUrls s) \<and> send e (Suc (length (trace s)))
      \<and> goto e (Suc (Suc (length (trace s)))) u = NavigationFailed"
  then have "urlQueue s = u # rest" by simp
  then show "iteration e baseUrl s =
      (Continue, s\<lparr>urlQueue := rest,
         trace := trace s @ [Shift u, Send (Visiting u) True, Goto u NavigationFailed]\<rparr>)"
    using a by (cases rule: iteration_cases[where e = e and b = baseUrl]) simp_all
next
  show "announced_first (actions (handler e m))"
    by (rule handler_announced_first)
next
  assume a: "\<forall>doc. Goto v (Rendered doc) \<notin> set (trace (snd (crawl e baseUrl seed)))"
  show "v \<notin> set (visitedUrls (snd (crawl e baseUrl seed)))"
    by (rule crawl_unrendered[OF a])
  show "v \<notin> url ` set (scrapedData (snd (crawl e baseUrl seed)))"
    by (rule crawl_unrendered[OF a])
next
  show "map fst (navigations (trace (snd (crawl (site [''/u2'', ''/u3'']) ''https://a.example'' seed_url))))
       = [seed_url, JStr ''https://a.example/u2'', JStr ''https://a.example/u3'']"
    by code_simp
next
  show "map url (scrapedData (snd (crawl (site [''/u2'', ''/u3'']) ''https://a.example'' seed_url)))
       = [seed_url, JStr ''https://a.example/u3'']"
    by code_simp
next
  show "visitedUrls (snd (crawl (site [''/u2'', ''/u3'']) ''https://a.example'' seed_url))
       = [seed_url, JStr ''https://a.example/u3'']"
    by code_simp
next
  show "stream (actions (handler (site [''/u2'', ''/u3'']) request))
       = [Visiting seed_url, Visiting (JStr ''https://a.example/u2''),
          Visiting (JStr ''https://a.example/u3''),
          ScrapedData
            [\<lparr>url = seed_url, data = [\<lparr>title = ''Home'', content = [(''p'', ''welcome'')]\<rparr>]\<rparr>,
             \<lparr>url = JStr ''https://a.example/u3'', data = []\<rparr>]]"
    by code_simp
qed

theorem navigation_failure_skips_witness:
  "iteration (site []) ''https://a.example''
     \<lparr>urlQueue = [JStr ''https://a.example/u2''], visitedUrls = [seed_url], scrapedData = [],
      trace = []\<rparr>
     = (Continue,
        \<lparr>urlQueue = [], visitedUrls = [seed_url], scrapedData = [],
         trace = [Shift (JStr ''https://a.example/u2''),
                  Send (Visiting (JStr ''https://a.example/u2'')) True,
                  Goto (JStr ''https://a.example/u2'') NavigationFailed]\<rparr>)
   \<and> actions (handler (site [''/u2'', ''/u2'']) request)
     = [Launch True, NewPage True, Shift seed_url, Send (Visiting seed_url) True,
        Goto seed_url (Rendered (seed_page [''/u2'', ''/u2''])),
        Shift (JStr ''https://a.example/u2''), Send (Visiting (JStr ''https://a.example/u2'')) True,
        Goto (JStr ''https://a.example/u2'') NavigationFailed,
        Shift (JStr ''https://a.example/u2''), Send (Visiting (JStr ''https://a.example/u2'')) True]
       @ Goto (JStr ''https://a.example/u2'') NavigationFailed
       # [Close True,
          Send (ScrapedData
            [\<lparr>url = seed_url, data = [\<lparr>title = ''Home'', content = [(''p'', ''welcome'')]\<rparr>]\<rparr>])
            True]
   \<and> (\<exists>pre'. [Launch True, NewPage True, Shift seed_url, Send (Visiting seed_url) True,
          Goto seed_url (Rendered (seed_page [''/u2'', ''/u2''])),
          Shift (JStr ''https://a.example/u2''),
          Send (Visiting (JStr ''https://a.example/u2'')) True,
          Goto (JStr ''https://a.example/u2'') NavigationFailed,
          Shift (JStr ''https://a.example/u2''),
          Send (Visiting (JStr ''https://a.example/u2'')) True]
         = pre' @ [Shift (JStr ''https://a.example/u2''),
             Send (Visiting (JStr ''https://a.example/u2'')) True])
   \<and> JStr ''https://a.example/u2''
       \<notin> set (visitedUrls (snd (crawl (site [''/u2'', ''/u3'']) ''https://a.example'' seed_url)))
   \<and> JStr ''https://a.example/u2''
       \<notin> url ` set (scrapedData (snd (crawl (site [''/u2'', ''/u3'']) ''https://a.example'' seed_url)))"
proof -
  let ?u2 = "JStr ''https://a.example/u2''"
  let ?s = "\<lparr>urlQueue = [?u2], visitedUrls = [seed_url], scrapedData = [], trace = []\<rparr>"
  let ?l = "actions (handler (site [''/u2'', ''/u2'']) request)"
  let ?pre = "[Launch True, NewPage True, Shift seed_url, Send (Visiting seed_url) True,
        Goto seed_url (Rendered (seed_page [''/u2'', ''/u2''])),
        Shift ?u2, Send (Visiting ?u2) True, Goto ?u2 NavigationFailed,
        Shift ?u2, Send (Visiting ?u2) True]"
  let ?post = "[Close True,
          Send (ScrapedData
            [\<lparr>url = seed_url, data = [\<lparr>title = ''Home'', content = [(''p'', ''welcome'')]\<rparr>]\<rparr>])
            True]"
  have 1: "urlQueue ?s = ?u2 # []
      \<and> ?u2 \<notin> set (visitedUrls ?s)
      \<and> send (site []) (Suc (length (trace ?s)))
      \<and> goto (site []) (Suc (Suc (length (trace ?s)))) ?u2 = NavigationFailed"
    by (simp add: site_def site_goto_def seed_url_def)
  have n: "navigations (trace (snd (crawl (site [''/u2'', ''/u3'']) ''https://a.example'' seed_url)))
      = [(seed_url, Rendered (seed_page [''/u2'', ''/u3''])),
         (?u2, NavigationFailed),
         (JStr ''https://a.example/u3'', Rendered blank_page)]"
    by code_simp
  have 2: "\<forall>doc. Goto ?u2 (Rendered doc)
      \<notin> set (trace (snd (crawl (site [''/u2'', ''/u3'']) ''https://a.example'' seed_url)))"
    unfolding navigations_set[symmetric] n by (simp add: seed_url_def)
  have act: "?l = ?pre @ Goto ?u2 NavigationFailed # ?post"
    by code_simp
  from navigation_failure_skips[of ?s ?u2 "[]" "site []" "''https://a.example''"] 1
  have "iteration (site []) ''https://a.example'' ?s
     = (Continue,
        ?s\<lparr>urlQueue := [],
           trace := trace ?s @ [Shift ?u2, Send (Visiting ?u2) True, Goto ?u2 NavigationFailed]\<rparr>)"
    by blast
  moreover
  from navigation_failure_skips[where e = "site [''/u2'', ''/u2'']" and m = request]
  have "announced_first ?l" by blast
  with act have "\<exists>pre'. ?pre = pre' @ [Shift ?u2, Send (Visiting ?u2) True]"
    unfolding announced_first_def by blast
  moreover
  from navigation_failure_skips[where v = ?u2
      and e = "site [''/u2'', ''/u3'']" and baseUrl = "''https://a.example''" and seed = seed_url] 2
  have "?u2 \<notin> set (visitedUrls (snd (crawl (site [''/u2'', ''/u3'']) ''https://a.example'' seed_url)))
   \<and> ?u2 \<notin> url ` set (scrapedData (snd (crawl (site [''/u2'', ''/u3'']) ''https://a.example'' seed_url)))"
    by blast
  ultimately show ?thesis
    using act by simp
qed

lemma no_revisit_distinct:
  "no_revisit l \<Longrightarrow> distinct (map fst (filter (\<lambda>p. snd p \<noteq> NavigationFailed) l))"
proof (induction l)
  case Nil
  then show ?case by simp
next
  case (Cons a l)
  then show ?case by (cases a) (auto simp: image_iff)
qed

lemma handler_navigations:
  "navigations (actions (handler e m)) = []
   \<or> (\<exists>b seed. navigations (actions (handler e m)) = navigations (trace (snd (crawl e b seed))))"
  by (cases e m rule: handler_cases) (simp_all, blast+)

lemma handler_no_revisit: "no_revisit (navigations (actions (handler e m)))"
proof -
  have "no_revisit (navigations (trace (snd (crawl e b seed))))" for b seed
    using crawl_consistent[of e b seed] by (simp add: consistent_def)
  with handler_navigations[of e m] show ?thesis by auto
qed

text \<open>
  Claim C6, as the spec states it: no URL is passed to \<open>page.goto\<close> twice within one
  session. It fails when a page links twice to a URL whose navigation fails: the URL is in
  the queue twice, is never put into the visited set, and is navigated at each pop.
\<close>

theorem revisit_counterexample:
  "\<not> distinct (map fst (navigations (actions (handler (site [''/u2'', ''/u2'']) request))))"
  by code_simp

text \<open>
  Claim C6, amended: within one session a URL is passed to \<open>page.goto\<close> again only if
  every earlier navigation of it failed: whenever a navigation of \<open>u\<close> is followed by
  another navigation of \<open>u\<close>, the earlier one failed. The sequence of URLs whose
  navigation returned contains no duplicates.
\<close>

theorem revisit_only_after_failure:
  "no_revisit (navigations (actions (handler e m)))
   \<and> (navigations (actions (handler e m)) = pre @ (u, r) # post \<and> (u, r') \<in> set post \<longrightarrow>
        r = NavigationFailed)
   \<and> distinct (returned (actions (handler e m)))"
proof (intro conjI impI)
  show "no_revisit (navigations (actions (handler e m)))"
    by (rule handler_no_revisit)
next
  assume "navigations (actions (handler e m)) = pre @ (u, r) # post \<and> (u, r') \<in> set post"
  then show "r = NavigationFailed"
    using no_revisit_decomp[OF handler_no_revisit, of e m pre u r post r'] by blast
next
  show "distinct (returned (actions (handler e m)))"
    unfolding returned_def by (rule no_revisit_distinct[OF handler_no_revisit])
qed

theorem revisit_only_after_failure_witness:
  "navigations (actions (handler (site [''/u2'', ''/u3'', ''/u2'', ''/u3'']) request))
     = [(seed_url, Rendered (seed_page [''/u2'', ''/u3'', ''/u2'', ''/u3'']))]
       @ (JStr ''https://a.example/u2'', NavigationFailed)
       # [(JStr ''https://a.example/u3'', Rendered blank_page),
          (JStr ''https://a.example/u2'', NavigationFailed)]
   \<and> returned (actions (handler (site [''/u2'', ''/u3'', ''/u2'', ''/u3'']) request))
     = [seed_url, JStr ''https://a.example/u3'']
   \<and> distinct (returned (actions (handler (site [''/u2'', ''/u3'', ''/u2'', ''/u3'']) request)))"
proof -
  let ?l = "actions (handler (site [''/u2'', ''/u3'', ''/u2'', ''/u3'']) request)"
  let ?u2 = "JStr ''https://a.example/u2''"
  let ?pre = "[(seed_url, Rendered (seed_page [''/u2'', ''/u3'', ''/u2'', ''/u3'']))]"
  let ?post = "[(JStr ''https://a.example/u3'', Rendered blank_page), (?u2, NavigationFailed)]"
  have n: "navigations ?l = ?pre @ (?u2, NavigationFailed) # ?post"
    by code_simp
  have again: "(?u2, NavigationFailed) \<in> set ?post"
    by simp
  have r: "returned ?l = [seed_url, JStr ''https://a.example/u3'']"
    unfolding returned_def n by simp
  from revisit_only_after_failure[of "site [''/u2'', ''/u3'', ''/u2'', ''/u3'']" request
      ?pre ?u2 NavigationFailed ?post NavigationFailed] n again
  have "distinct (returned ?l)" by blast
  with n r show ?thesis by blast
qed

lemma crawl_loop_actions: "\<forall>a \<in> set (trace (snd (crawl e b seed))). loop_action a"
  using crawl_consistent[of e b seed] by (simp add: consistent_def)

lemma loop_action_stream:
  "\<forall>a \<in> set l. loop_action a \<Longrightarrow> \<forall>x \<in> set (stream l). \<exists>u. x = Visiting u"
proof (induction l)
  case Nil
  then show ?case by (simp add: stream_def map_filter_simps)
next
  case (Cons a l)
  then have IH: "\<forall>x \<in> set (stream l). \<exists>u. x = Visiting u" by simp
  from Cons.prems have la: "loop_action a" by simp
  show ?case
  proof (cases "sent_message a")
    case None
    with IH show ?thesis by (simp add: stream_def map_filter_simps)
  next
    case (Some x)
    then obtain u where "x = Visiting u"
      using la by (cases a rule: loop_action.cases) (auto elim: sent_message.elims)
    with Some IH show ?thesis by (simp add: stream_def map_filter_simps)
  qed
qed

lemma stream_append: "stream (l @ l') = stream l @ stream l'"
  by (simp add: stream_def map_filter_def)

lemma stream_simps:
  "stream [] = []" "stream (Send x True # l) = x # stream l" "stream (Send x False # l) = stream l"
  "stream (Close c # l) = stream l" "stream (Launch c # l) = stream l"
  "stream (NewPage c # l) = stream l"
  by (simp_all add: stream_def map_filter_simps)

lemma not_in_front:
  "x \<notin> set xs \<Longrightarrow> xs @ ys = pre @ x # post \<Longrightarrow> \<exists>us. ys = us @ x # post"
  by (auto simp: append_eq_append_conv2 append_eq_Cons_conv)

lemma result_is_last:
  assumes "stream (actions (handler e m)) = pre @ ScrapedData d # post"
  shows "post = []"
proof (cases e m rule: handler_cases)
  case (early msg ok)
  with assms show ?thesis
    by (cases ok) (simp_all add: stream_simps Cons_eq_append_conv)
next
  case type_error
  with assms show ?thesis by (simp add: stream_simps)
next
  case (no_browser msg ok)
  with assms show ?thesis
    by (cases ok) (simp_all add: stream_simps Cons_eq_append_conv)
next
  case (no_page msg ok c)
  with assms show ?thesis
    by (cases ok) (simp_all add: stream_simps Cons_eq_append_conv)
next
  case (no_origin msg ok c)
  with assms show ?thesis
    by (cases ok) (simp_all add: stream_simps Cons_eq_append_conv)
next
  case (thrown b seed msg ok c)
  let ?v = "stream (trace (snd (crawl e b seed)))"
  have v: "ScrapedData d \<notin> set ?v"
    using loop_action_stream[OF crawl_loop_actions, of e b seed] by auto
  from thrown assms have "?v @ stream [Send (Error msg) ok, Close c] = pre @ ScrapedData d # post"
    by (simp add: stream_append)
  from not_in_front[OF v this] show ?thesis
    by (cases ok) (simp_all add: stream_simps Cons_eq_append_conv)
next
  case (close_failed b seed msg ok c)
  let ?v = "stream (trace (snd (crawl e b seed)))"
  have v: "ScrapedData d \<notin> set ?v"
    using loop_action_stream[OF crawl_loop_actions, of e b seed] by auto
  from close_failed assms
  have "?v @ stream [Close False, Send (Error msg) ok, Close c] = pre @ ScrapedData d # post"
    by (simp add: stream_append)
  from not_in_front[OF v this] show ?thesis
    by (cases ok) (simp_all add: stream_simps Cons_eq_append_conv)
next
  case (completed b seed ok)
  let ?v = "stream (trace (snd (crawl e b seed)))"
  have v: "ScrapedData d \<notin> set ?v"
    using loop_action_stream[OF crawl_loop_actions, of e b seed] by auto
  from completed assms
  have "?v @ stream [Close True, Send (ScrapedData (scrapedData (snd (crawl e b seed)))) ok]
      = pre @ ScrapedData d # post"
    by (simp add: stream_append)
  from not_in_front[OF v this] show ?thesis
    by (cases ok) (simp_all add: stream_simps Cons_eq_append_conv)
qed

lemma handler_announcements:
  "subseq (announcements (actions (handler e m))) (pops (actions (handler e m)))"
proof -
  have c: "subseq (announcements (trace (snd (crawl e b seed)))) (pops (trace (snd (crawl e b seed))))"
    for b seed
    using crawl_consistent[of e b seed] by (simp add: consistent_def)
  show ?thesis
    by (cases e m rule: handler_cases) (simp_all add: c)
qed

lemma iteration_trace:
  assumes "urlQueue s = u # rest"
  shows "trace (snd (iteration e b s)) =
     trace s @ Shift u #
       (if u \<in> set (visitedUrls s) then []
        else Send (Visiting u) (send e (Suc (length (trace s)))) #
          (if send e (Suc (length (trace s)))
           then [Goto u (goto e (Suc (Suc (length (trace s)))) u)] else []))"
  using assms by (cases rule: iteration_cases[where e = e and b = b]) simp_all

text \<open>
  Claim C7, as the spec states it: a \<open>visiting\<close> event is emitted once per pop of the
  queue. It fails when a URL is in the queue twice and its first visit succeeds: the second
  pop is discarded by the duplicate check without an event. Here the queue is popped three
  times and two \<open>visiting\<close> messages are sent.
\<close>

theorem visiting_per_pop_counterexample:
  "pops (actions (handler (site [''/u3'', ''/u3'']) request))
     = [seed_url, JStr ''https://a.example/u3'', JStr ''https://a.example/u3'']
   \<and> announcements (actions (handler (site [''/u3'', ''/u3'']) request))
     = [seed_url, JStr ''https://a.example/u3'']
   \<and> announcements (actions (handler (site [''/u3'', ''/u3'']) request))
     \<noteq> pops (actions (handler (site [''/u3'', ''/u3'']) request))"
  by code_simp

text \<open>
  Claim C7, amended: each pop of a URL that is not in the visited set is followed at once by
  one send of \<open>{visiting: url}\<close>, and the navigation of the URL follows that send when
  the send succeeded; a pop of a URL in the visited set logs nothing else. In the log of a
  whole run every navigation comes right after the pop and the sent \<open>visiting\<close> message
  of its URL, the announced URLs are a subsequence of the popped URLs (so they appear in pop
  order), and a \<open>scrapedData\<close> message, if one reached the client, is the last message
  of the stream.
\<close>

theorem visiting_before_navigation:
  "(urlQueue s = u # rest \<longrightarrow>
      trace (snd (iteration e baseUrl s)) =
        trace s @ Shift u #
          (if u \<in> set (visitedUrls s) then []
           else Send (Visiting u) (send e (Suc (length (trace s)))) #
             (if send e (Suc (length (trace s)))
              then [Goto u (goto e (Suc (Suc (length (trace s)))) u)] else [])))
   \<and> announced_first (actions (handler e m))
   \<and> subseq (announcements (actions (handler e m))) (pops (actions (handler e m)))
   \<and> (stream (actions (handler e m)) = pre @ ScrapedData d # post \<longrightarrow> post = [])"
  using iteration_trace[of s u rest e baseUrl] handler_announced_first[of e m]
    handler_announcements[of e m] result_is_last[of e m pre d post]
  by blast

theorem visiting_before_navigation_witness:
  "trace (snd (iteration (site []) ''https://a.example''
       \<lparr>urlQueue = [seed_url], visitedUrls = [seed_url], scrapedData = [], trace = []\<rparr>))
     = [Shift seed_url]
   \<and> actions (handler (site [''/u3'', ''/u3'']) request)
     = [Launch True, NewPage True, Shift seed_url, Send (Visiting seed_url) True]
       @ Goto seed_url (Rendered (seed_page [''/u3'', ''/u3'']))
       # [Shift (JStr ''https://a.example/u3''), Send (Visiting (JStr ''https://a.example/u3'')) True,
          Goto (JStr ''https://a.example/u3'') (Rendered blank_page),
          Shift (JStr ''https://a.example/u3''), Close True,
          Send (ScrapedData
            [\<lparr>url = seed_url, data = [\<lparr>title = ''Home'', content = [(''p'', ''welcome'')]\<rparr>]\<rparr>,
             \<lparr>url = JStr ''https://a.example/u3'', data = []\<rparr>]) True]
   \<and> (\<exists>pre'. [Launch True, NewPage True, Shift seed_url, Send (Visiting seed_url) True]
         = pre' @ [Shift seed_url, Send (Visiting seed_url) True])
   \<and> subseq [seed_url, JStr ''https://a.example/u3'']
        [seed_url, JStr ''https://a.example/u3'', JStr ''https://a.example/u3'']
   \<and> stream (actions (handler (site [''/u3'', ''/u3'']) request))
     = [Visiting seed_url, Visiting (JStr ''https://a.example/u3''),
        ScrapedData
          [\<lparr>url = seed_url, data = [\<lparr>title = ''Home'', content = [(''p'', ''welcome'')]\<rparr>]\<rparr>,
           \<lparr>url = JStr ''https://a.example/u3'', data = []\<rparr>]]"
proof -
  let ?s = "\<lparr>urlQueue = [seed_url], visitedUrls = [seed_url], scrapedData = [], trace = []\<rparr>"
  let ?l = "actions (handler (site [''/u3'', ''/u3'']) request)"
  let ?u3 = "JStr ''https://a.example/u3''"
  let ?d = "[\<lparr>url = seed_url, data = [\<lparr>title = ''Home'', content = [(''p'', ''welcome'')]\<rparr>]\<rparr>,
           \<lparr>url = ?u3, data = []\<rparr>]"
  let ?pre = "[Launch True, NewPage True, Shift seed_url, Send (Visiting seed_url) True]"
  let ?post = "[Shift ?u3, Send (Visiting ?u3) True, Goto ?u3 (Rendered blank_page),
          Shift ?u3, Close True, Send (ScrapedData ?d) True]"
  have q: "urlQueue ?s = seed_url # []" by simp
  have act: "?l = ?pre @ Goto seed_url (Rendered (seed_page [''/u3'', ''/u3''])) # ?post"
    by code_simp
  have p: "pops ?l = [seed_url, ?u3, ?u3]"
    by code_simp
  have a: "announcements ?l = [seed_url, ?u3]"
    by code_simp
  have st: "stream ?l = [Visiting seed_url, Visiting ?u3] @ ScrapedData ?d # []"
    by code_simp
  from visiting_before_navigation[of ?s seed_url "[]" "site []" "''https://a.example''"] q
  have "trace (snd (iteration (site []) ''https://a.example'' ?s)) = [Shift seed_url]"
    by simp
  moreover
  from visiting_before_navigation[where e = "site [''/u3'', ''/u3'']" and m = request
      and pre = "[Visiting seed_url, Visiting ?u3]" and d = ?d and post = "[]"] st
  have af: "announced_first ?l" and "subseq (announcements ?l) (pops ?l)"
    by blast+
  moreover from af act have "\<exists>pre'. ?pre = pre' @ [Shift seed_url, Send (Visiting seed_url) True]"
    unfolding announced_first_def by blast
  ultimately show ?thesis
    using st act unfolding p a by simp
qed

lemma not_in_front_set:
  "x \<notin> set xs \<Longrightarrow> xs @ ys = pre @ x # post \<Longrightarrow> set post \<subseteq> set ys"
  using not_in_front[of x xs ys pre post] by auto

lemma close_called:
  "Launch True \<in> set (actions (handler e m)) \<Longrightarrow>
   (\<exists>ok. Close ok \<in> set (actions (handler e m)))
   \<and> (Close True \<in> set (actions (handler e m)) \<longleftrightarrow> \<not> rejected (handler e m))"
proof -
  assume l: "Launch True \<in> set (actions (handler e m))"
  have nc: "Close True \<notin> set (trace (snd (crawl e b seed)))" for b seed
    using crawl_loop_actions[of e b seed] by auto
  from l show ?thesis
    by (cases e m rule: handler_cases) (auto simp: nc)
qed

lemma session_no_failed_close:
  assumes c: "\<forall>t. close e t"
  shows "Close False \<notin> set (actions (session e seed))"
proof (cases "origin e seed")
  case None
  with c show ?thesis by (simp add: session_def catch_block_def Let_def)
next
  case (Some b)
  obtain t s where cr: "crawl e b seed = (t, s)" by (cases "crawl e b seed")
  have "Close False \<notin> set (trace (snd (crawl e b seed)))"
    using crawl_loop_actions[of e b seed] by auto
  with cr have "Close False \<notin> set (trace s)" by simp
  with c Some cr show ?thesis
    by (cases t) (simp_all add: session_def catch_block_def Let_def)
qed

lemma handler_no_failed_close:
  assumes c: "\<forall>t. close e t"
  shows "Close False \<notin> set (actions (handler e m))"
proof (cases m)
  case SyntaxError
  then show ?thesis by (simp add: handler_def Let_def)
next
  case (Parsed v)
  show ?thesis
  proof (cases "destructure_url v")
    case None
    with Parsed show ?thesis by (simp add: handler_def)
  next
    case (Some seed)
    with Parsed session_no_failed_close[OF c, of seed] show ?thesis
      by (simp add: handler_def Let_def)
  qed
qed

lemma close_succeeds:
  assumes c: "\<forall>t. close e t" and l: "Launch True \<in> set (actions (handler e m))"
  shows "Close True \<in> set (actions (handler e m))"
proof -
  from close_called[OF l] obtain ok where "Close ok \<in> set (actions (handler e m))" by blast
  with handler_no_failed_close[OF c, of m] show ?thesis by (cases ok) auto
qed

lemma after_close:
  assumes "actions (handler e m) = pre @ Close ok # post"
  shows "\<forall>a \<in> set post. (\<exists>x b. a = Send x b) \<or> (\<exists>c. a = Close c)"
proof (cases e m rule: handler_cases)
  case (early msg ok)
  with assms show ?thesis by (simp add: Cons_eq_append_conv)
next
  case type_error
  with assms show ?thesis by simp
next
  case (no_browser msg ok)
  with assms show ?thesis by (simp add: Cons_eq_append_conv)
next
  case (no_page msg ok c)
  with assms show ?thesis by (auto simp: Cons_eq_append_conv)
next
  case (no_origin msg ok c)
  with assms show ?thesis by (auto simp: Cons_eq_append_conv)
next
  case (thrown b seed msg ok' c)
  have "Close ok \<notin> set (trace (snd (crawl e b seed)))"
    using crawl_loop_actions[of e b seed] by auto
  moreover from thrown assms
  have "trace (snd (crawl e b seed)) @ [Send (Error msg) ok', Close c] = pre @ Close ok # post"
    by simp
  ultimately have "set post \<subseteq> set [Send (Error msg) ok', Close c]"
    by (rule not_in_front_set)
  then show ?thesis by auto
next
  case (close_failed b seed msg ok' c)
  have "Close ok \<notin> set (trace (snd (crawl e b seed)))"
    using crawl_loop_actions[of e b seed] by auto
  moreover from close_failed assms
  have "trace (snd (crawl e b seed)) @ [Close False, Send (Error msg) ok', Close c]
      = pre @ Close ok # post"
    by simp
  ultimately have "set post \<subseteq> set [Close False, Send (Error msg) ok', Close c]"
    by (rule not_in_front_set)
  then show ?thesis by auto
next
  case (completed b seed ok')
  have "Close ok \<notin> set (trace (snd (crawl e b seed)))"
    using crawl_loop_actions[of e b seed] by auto
  moreover from completed assms
  have "trace (snd (crawl e b seed))
        @ [Close True, Send (ScrapedData (scrapedData (snd (crawl e b seed)))) ok']
      = pre @ Close ok # post"
    by simp
  ultimately have "set post
      \<subseteq> set [Close True, Send (ScrapedData (scrapedData (snd (crawl e b seed)))) ok']"
    by (rule not_in_front_set)
  then show ?thesis by auto
qed

text \<open>
  Claim C9: on every exit path of a session the browser is closed before the handler ends.
  The renderer's \<open>close()\<close> is taken at its contract: it returns when called. Then,
  whenever the launch succeeded (on normal completion, after a failed send, after an
  exception of the page, the URL class or the renderer's content), \<open>browser.close()\<close> is
  called and returns, and no exception escapes the handler. Without the assumption:
  \<open>browser.close()\<close> is called on every such path, and it returned at least once exactly
  when no exception escaped the handler. After a call of \<open>browser.close()\<close> the handler
  only sends messages or calls \<open>browser.close()\<close> again: no page is opened or navigated.
\<close>

theorem renderer_released:
  "((\<forall>t. close e t) \<and> Launch True \<in> set (actions (handler e m)) \<longrightarrow>
      Close True \<in> set (actions (handler e m))
      \<and> Close False \<notin> set (actions (handler e m))
      \<and> \<not> rejected (handler e m))
   \<and> (Launch True \<in> set (actions (handler e m)) \<longrightarrow>
      (\<exists>ok. Close ok \<in> set (actions (handler e m)))
      \<and> (Close True \<in> set (actions (handler e m)) \<longleftrightarrow> \<not> rejected (handler e m)))
   \<and> (actions (handler e m) = pre @ Close ok # post \<longrightarrow>
        (\<forall>a \<in> set post. (\<exists>x b. a = Send x b) \<or> (\<exists>c. a = Close c)))"
proof (intro conjI impI)
  assume a: "(\<forall>t. close e t) \<and> Launch True \<in> set (actions (handler e m))"
  then show c: "Close True \<in> set (actions (handler e m))"
    using close_succeeds[of e m] by blast
  from a show "Close False \<notin> set (actions (handler e m))"
    using handler_no_failed_close[of e m] by blast
  from a c show "\<not> rejected (handler e m)"
    using close_called[of e m] by blast
next
  assume "Launch True \<in> set (actions (handler e m))"
  then show "\<exists>ok. Close ok \<in> set (actions (handler e m))"
    and "Close True \<in> set (actions (handler e m)) \<longleftrightarrow> \<not> rejected (handler e m)"
    using close_called[of e m] by blast+
next
  assume "actions (handler e m) = pre @ Close ok # post"
  then show "\<forall>a \<in> set post. (\<exists>x b. a = Send x b) \<or> (\<exists>c. a = Close c)"
    by (rule after_close)
qed

theorem renderer_released_witness:
  "(\<forall>t. close (site []) t)
   \<and> Launch True \<in> set (actions (handler (site []) request))
   \<and> Close True \<in> set (actions (handler (site []) request))
   \<and> \<not> rejected (handler (site []) request)
   \<and> actions (handler (site []) request)
       = [Launch True, NewPage True, Shift seed_url, Send (Visiting seed_url) True,
          Goto seed_url (Rendered (seed_page []))]
         @ Close True
         # [Send (ScrapedData
              [\<lparr>url = seed_url, data = [\<lparr>title = ''Home'', content = [(''p'', ''welcome'')]\<rparr>]\<rparr>])
            True]
   \<and> (\<forall>t. close ((site [])\<lparr>goto := \<lambda>t u. ContentFailed\<rparr>) t)
   \<and> actions (handler ((site [])\<lparr>goto := \<lambda>t u. ContentFailed\<rparr>) request)
       = [Launch True, NewPage True, Shift seed_url, Send (Visiting seed_url) True,
          Goto seed_url ContentFailed, Send (Error ''An unexpected error occurred.'') True,
          Close True]
   \<and> Close True \<in> set (actions (handler ((site [])\<lparr>goto := \<lambda>t u. ContentFailed\<rparr>) request))
   \<and> \<not> rejected (handler ((site [])\<lparr>goto := \<lambda>t u. ContentFailed\<rparr>) request)
   \<and> actions (handler ((site [])\<lparr>send := \<lambda>t. False\<rparr>) request)
       = [Launch True, NewPage True, Shift seed_url, Send (Visiting seed_url) False,
          Close True, Send (ScrapedData []) False]
   \<and> Close True \<in> set (actions (handler ((site [])\<lparr>send := \<lambda>t. False\<rparr>) request))
   \<and> actions (handler ((site [])\<lparr>close := \<lambda>t. False\<rparr>) request)
       = [Launch True, NewPage True, Shift seed_url, Send (Visiting seed_url) True,
          Goto seed_url (Rendered (seed_page [])), Close False,
          Send (Error ''An unexpected error occurred.'') True, Close False]
   \<and> rejected (handler ((site [])\<lparr>close := \<lambda>t. False\<rparr>) request)"
proof -
  let ?e = "(site [])\<lparr>goto := \<lambda>t u. ContentFailed\<rparr>"
  let ?e2 = "(site [])\<lparr>send := \<lambda>t. False\<rparr>"
  let ?e3 = "(site [])\<lparr>close := \<lambda>t. False\<rparr>"
  let ?pre = "[Launch True, NewPage True, Shift seed_url, Send (Visiting seed_url) True,
        Goto seed_url (Rendered (seed_page []))]"
  let ?post = "[Send (ScrapedData
              [\<lparr>url = seed_url, data = [\<lparr>title = ''Home'', content = [(''p'', ''welcome'')]\<rparr>]\<rparr>])
            True]"
  have c: "\<forall>t. close (site []) t" "\<forall>t. close ?e t" "\<forall>t. close ?e2 t"
    by (simp_all add: site_def)
  have a: "actions (handler (site []) request) = ?pre @ Close True # ?post"
    by code_simp
  then have l: "Launch True \<in> set (actions (handler (site []) request))"
    by simp
  have a': "actions (handler ?e request)
       = [Launch True, NewPage True, Shift seed_url, Send (Visiting seed_url) True,
          Goto seed_url ContentFailed, Send (Error ''An unexpected error occurred.'') True,
          Close True]"
    by code_simp
  then have l': "Launch True \<in> set (actions (handler ?e request))"
    by simp
  have a2: "actions (handler ?e2 request)
       = [Launch True, NewPage True, Shift seed_url, Send (Visiting seed_url) False,
          Close True, Send (ScrapedData []) False]"
    by code_simp
  then have l2: "Launch True \<in> set (actions (handler ?e2 request))"
    by simp
  have a3: "actions (handler ?e3 request)
       = [Launch True, NewPage True, Shift seed_url, Send (Visiting seed_url) True,
          Goto seed_url (Rendered (seed_page [])), Close False,
          Send (Error ''An unexpected error occurred.'') True, Close False]"
    by code_simp
  then have l3: "Launch True \<in> set (actions (handler ?e3 request))"
    and nc3: "Close True \<notin> set (actions (handler ?e3 request))"
    by simp_all
  from renderer_released[of "site []" request ?pre True ?post] c(1) l a
  have "Close True \<in> set (actions (handler (site []) request))
      \<and> \<not> rejected (handler (site []) request)
      \<and> (\<forall>a \<in> set ?post. (\<exists>x b. a = Send x b) \<or> (\<exists>c. a = Close c))"
    by blast
  moreover from renderer_released[of ?e request] c(2) l'
  have "Close True \<in> set (actions (handler ?e request)) \<and> \<not> rejected (handler ?e request)"
    by blast
  moreover from renderer_released[of ?e2 request] c(3) l2
  have "Close True \<in> set (actions (handler ?e2 request))"
    by blast
  moreover from renderer_released[of ?e3 request] l3 nc3
  have "rejected (handler ?e3 request)"
    by blast
  ultimately show ?thesis
    using c l a a' a2 a3 by blast
qed

lemma blank_extractor:
  assumes "\<forall>el \<in> set (select_content doc). \<not> has_text el"
  shows "extractor doc = []"
proof -
  from assms have "\<forall>el \<in> set (select_content doc). has_text el \<longrightarrow> prefix ''h'' (tagName el)"
    by simp
  from walk_headings_only[OF this, of "\<lparr>title = [], content = []\<rparr>" "[]"]
  show ?thesis
    by (simp add: extractor_flush flush_def)
qed

lemma crawl_rendered_recorded:
  "Goto u (Rendered doc) \<in> set (trace (snd (crawl e b seed))) \<Longrightarrow>
   \<lparr>url = u, data = extractor doc\<rparr> \<in> set (scrapedData (snd (crawl e b seed)))"
  using crawl_consistent[of e b seed] unfolding consistent_def by blast

lemma handler_rendered_recorded:
  assumes g: "Goto u (Rendered doc) \<in> set (actions (handler e m))"
    and r: "Send (ScrapedData d) ok \<in> set (actions (handler e m))"
  shows "\<lparr>url = u, data = extractor doc\<rparr> \<in> set d"
proof (cases e m rule: handler_cases)
  case (early msg ok)
  with g show ?thesis by simp
next
  case type_error
  with g show ?thesis by simp
next
  case (no_browser msg ok)
  with g show ?thesis by simp
next
  case (no_page msg ok c)
  with g show ?thesis by simp
next
  case (no_origin msg ok c)
  with g show ?thesis by simp
next
  case (thrown b seed msg ok' c)
  have "Send (ScrapedData d) ok \<notin> set (trace (snd (crawl e b seed)))"
    using crawl_loop_actions[of e b seed] by auto
  with thrown r show ?thesis by simp
next
  case (close_failed b seed msg ok' c)
  have "Send (ScrapedData d) ok \<notin> set (trace (snd (crawl e b seed)))"
    using crawl_loop_actions[of e b seed] by auto
  with close_failed r show ?thesis by simp
next
  case (completed b seed ok')
  have "Send (ScrapedData d) ok \<notin> set (trace (snd (crawl e b seed)))"
    using crawl_loop_actions[of e b seed] by auto
  with completed r have d: "d = scrapedData (snd (crawl e b seed))" by simp
  from completed g have "Goto u (Rendered doc) \<in> set (trace (snd (crawl e b seed)))" by simp
  from crawl_rendered_recorded[OF this] d show ?thesis by simp
qed

text \<open>
  Claim C10: a page that was rendered and has no element of the extraction tag set with
  non-empty trimmed text still gets a page record, with no sections. The extractor gives
  the empty list for such a document; the iteration that renders it appends
  \<open>{url, data: []}\<close> to the results; the record is in the results at the end of the
  crawl and in the \<open>scrapedData\<close> message the handler sends.
\<close>

theorem blank_page_recorded:
  "((\<forall>el \<in> set (select_content doc). \<not> has_text el) \<longrightarrow> extractor doc = [])
   \<and> (urlQueue s = u # rest \<and> u \<notin> set (visitedUrls s) \<and> send e (Suc (length (trace s)))
        \<and> goto e (Suc (Suc (length (trace s)))) u = Rendered doc
        \<and> (\<forall>el \<in> set (select_content doc). \<not> has_text el) \<longrightarrow>
        scrapedData (snd (iteration e baseUrl s)) = scrapedData s @ [\<lparr>url = u, data = []\<rparr>])
   \<and> (Goto v (Rendered doc) \<in> set (trace (snd (crawl e baseUrl seed)))
        \<and> (\<forall>el \<in> set (select_content doc). \<not> has_text el) \<longrightarrow>
        \<lparr>url = v, data = []\<rparr> \<in> set (scrapedData (snd (crawl e baseUrl seed))))
   \<and> (Goto v (Rendered doc) \<in> set (actions (handler e m))
        \<and> (\<forall>el \<in> set (select_content doc). \<not> has_text el)
        \<and> Send (ScrapedData d) ok \<in> set (actions (handler e m)) \<longrightarrow>
        \<lparr>url = v, data = []\<rparr> \<in> set d)"
proof (intro conjI impI)
  assume "\<forall>el \<in> set (select_content doc). \<not> has_text el"
  then show "extractor doc = []" by (rule blank_extractor)
next
  assume a: "urlQueue s = u # rest \<and> u \<notin> set (visitedUrls s) \<and> send e (Suc (length (trace s)))
        \<and> goto e (Suc (Suc (length (trace s)))) u = Rendered doc
        \<and> (\<forall>el \<in> set (select_content doc). \<not> has_text el)"
  then have "urlQueue s = u # rest" by simp
  then show "scrapedData (snd (iteration e baseUrl s)) = scrapedData s @ [\<lparr>url = u, data = []\<rparr>]"
    using a by (cases rule: iteration_cases[where e = e and b = baseUrl])
      (simp_all add: blank_extractor)
next
  assume "Goto v (Rendered doc) \<in> set (trace (snd (crawl e baseUrl seed)))
        \<and> (\<forall>el \<in> set (select_content doc). \<not> has_text el)"
  then show "\<lparr>url = v, data = []\<rparr> \<in> set (scrapedData (snd (crawl e baseUrl seed)))"
    using crawl_rendered_recorded[of v doc e baseUrl seed] blank_extractor[of doc] by simp
next
  assume "Goto v (Rendered doc) \<in> set (actions (handler e m))
        \<and> (\<forall>el \<in> set (select_content doc). \<not> has_text el)
        \<and> Send (ScrapedData d) ok \<in> set (actions (handler e m))"
  then show "\<lparr>url = v, data = []\<rparr> \<in> set d"
    using handler_rendered_recorded[of v doc e m d ok] blank_extractor[of doc] by simp
qed

theorem blank_page_recorded_witness:
  "extractor blank_page = []
   \<and> scrapedData (snd (iteration (site []) ''https://a.example''
        \<lparr>urlQueue = [JStr ''https://a.example/u3''], visitedUrls = [], scrapedData = [],
         trace = []\<rparr>))
       = [\<lparr>url = JStr ''https://a.example/u3'', data = []\<rparr>]
   \<and> \<lparr>url = JStr ''https://a.example/u3'', data = []\<rparr>
       \<in> set (scrapedData (snd (crawl (site [''/u3'']) ''https://a.example'' seed_url)))
   \<and> stream (actions (handler (site [''/u3'']) request))
       = [Visiting seed_url, Visiting (JStr ''https://a.example/u3''),
          ScrapedData
            [\<lparr>url = seed_url, data = [\<lparr>title = ''Home'', content = [(''p'', ''welcome'')]\<rparr>]\<rparr>,
             \<lparr>url = JStr ''https://a.example/u3'', data = []\<rparr>]]"
proof -
  let ?u3 = "JStr ''https://a.example/u3''"
  let ?s = "\<lparr>urlQueue = [?u3], visitedUrls = [], scrapedData = [], trace = []\<rparr>"
  let ?d = "[\<lparr>url = seed_url, data = [\<lparr>title = ''Home'', content = [(''p'', ''welcome'')]\<rparr>]\<rparr>,
             \<lparr>url = ?u3, data = []\<rparr>]"
  have blank: "\<forall>el \<in> set (select_content blank_page). \<not> has_text el"
    by (simp add: select_content_def blank_page_def extraction_tags_def has_text_def trim_def
        js_whitespace_def)
  have it: "urlQueue ?s = ?u3 # [] \<and> ?u3 \<notin> set (visitedUrls ?s)
      \<and> send (site []) (Suc (length (trace ?s)))
      \<and> goto (site []) (Suc (Suc (length (trace ?s)))) ?u3 = Rendered blank_page"
    by (simp add: site_def site_goto_def)
  have t: "trace (snd (crawl (site [''/u3'']) ''https://a.example'' seed_url))
      = [Launch True, NewPage True, Shift seed_url, Send (Visiting seed_url) True,
         Goto seed_url (Rendered (seed_page [''/u3''])),
         Shift ?u3, Send (Visiting ?u3) True, Goto ?u3 (Rendered blank_page)]"
    by code_simp
  have a: "actions (handler (site [''/u3'']) request)
      = [Launch True, NewPage True, Shift seed_url, Send (Visiting seed_url) True,
         Goto seed_url (Rendered (seed_page [''/u3''])),
         Shift ?u3, Send (Visiting ?u3) True, Goto ?u3 (Rendered blank_page),
         Close True, Send (ScrapedData ?d) True]"
    by code_simp
  have st: "stream (actions (handler (site [''/u3'']) request))
      = [Visiting seed_url, Visiting ?u3, ScrapedData ?d]"
    unfolding a by (simp add: stream_simps stream_def map_filter_simps)
  from blank_page_recorded[where doc = blank_page] blank
  have "extractor blank_page = []" by blast
  moreover
  from blank_page_recorded[where doc = blank_page and s = ?s and u = ?u3 and rest = "[]"
      and e = "site []" and baseUrl = "''https://a.example''"] blank it
  have "scrapedData (snd (iteration (site []) ''https://a.example'' ?s))
      = scrapedData ?s @ [\<lparr>url = ?u3, data = []\<rparr>]"
    by blast
  moreover
  from blank_page_recorded[where doc = blank_page and v = ?u3 and e = "site [''/u3'']"
      and baseUrl = "''https://a.example''" and seed = seed_url] blank t
  have "\<lparr>url = ?u3, data = []\<rparr>
      \<in> set (scrapedData (snd (crawl (site [''/u3'']) ''https://a.example'' seed_url)))"
    by simp
  moreover
  from blank_page_recorded[where doc = blank_page and v = ?u3 and e = "site [''/u3'']"
      and m = request and d = ?d and ok = True] blank a
  have "\<lparr>url = ?u3, data = []\<rparr> \<in> set ?d"
    by simp
  ultimately show ?thesis
    using st by simp
qed

text \<open>
  Claim C8 (every message that does not parse or has no truthy \<open>url\<close> is answered with
  exactly one error event) does not hold of the code for the JSON text \<open>null\<close>: the
  destructuring of line 72 throws outside any \<open>try\<close>, the handler sends nothing and its
  promise is rejected.
\<close>

theorem null_message_unanswered:
  "handler e (Parsed JNull) = \<lparr>actions = [], rejected = True\<rparr>
   \<and> stream (actions (handler e (Parsed JNull))) = []"
  by (simp add: handler_def stream_def map_filter_simps)

text \<open>For the other malformed messages the handler makes exactly one send, of an error.\<close>

lemma malformed_message_answered:
  assumes "m = SyntaxError \<or> (\<exists>v w. m = Parsed v \<and> destructure_url v = Some w \<and> falsy w)"
  shows "\<exists>msg. actions (handler e m) = [Send (Error msg) (send e 0)]"
  using assms by (auto simp: handler_def Let_def)

end
